theory Spec2Isabelle
  imports Main "HOL-Library.Word"
begin

section \<open>Strings, arrays and errors\<close>

text \<open>
  A JavaScript string is a sequence of UTF-16 code units, so a string is a list of 16-bit
  words and \<open>s.length\<close> is the length of the list. \<open>s[i]\<close> is the one-unit string at
  position \<open>i\<close>, or \<open>undefined\<close> out of range: \<open>char_at\<close> returns an option, and
  \<open>===\<close> on two such values is equality of options (\<open>undefined === undefined\<close> holds).
  Reading an array of numbers out of range gives \<open>undefined\<close> as well.
\<close>

type_synonym js_string = "16 word list"

definition char_at :: "js_string \<Rightarrow> nat \<Rightarrow> 16 word option" where
  "char_at s i = (if i < length s then Some (s ! i) else None)"

definition array_get :: "nat list \<Rightarrow> nat \<Rightarrow> nat option" where
  "array_get xs k = (if k < length xs then Some (xs ! k) else None)"

text \<open>String literals of the examples: the code units of an ASCII string.\<close>

definition str :: "string \<Rightarrow> js_string" where
  "str cs = map (\<lambda>c. of_nat (of_char c)) cs"

text \<open>\<open>throw new Error(message)\<close>\<close>

datatype error = Error string

section \<open>kmp.js: the failure-function builder\<close>

text \<open>
  One constructor per step type pushed by \<open>computeLPSWithSteps\<close>, with the fields
  \<open>lpsArray\<close> (the snapshot \<open>[...lps]\<close>), \<open>currentIndex\<close>, \<open>prefixLength\<close> and
  \<open>oldPrefixLength\<close>. The fields \<open>pattern\<close>, \<open>compareIndexPattern\<close>,
  \<open>compareIndexPrefix\<close> and the texts \<open>description\<close> and \<open>explanation\<close> repeat the
  pattern and these numbers and are left out.
\<close>

datatype lps_step =
    LpsInit "nat list"
  | LpsMatch "nat list" nat nat
  | LpsFallback "nat list" nat "nat option" nat
  | LpsZero "nat list" nat
  | LpsComplete "nat list"

text \<open>
  The variables of the loop. \<open>length\<close> is an option because \<open>length = lps[length - 1]\<close>
  makes it \<open>undefined\<close> when the read is out of range.
\<close>

record lps_state =
  ls_i :: nat
  ls_length :: "nat option"
  ls_lps :: "nat list"
  ls_steps :: "lps_step list"

text \<open>
  The body of \<open>while (i < m)\<close>, entered with \<open>length\<close> a number \<open>len\<close>. The two writes
  \<open>lps[i] = \<dots>\<close> happen at \<open>i < m\<close>, inside the array of \<open>m\<close> entries that
  \<open>new Array(m).fill(0)\<close> made (lemma \<open>lps_iter_length\<close> below: the array keeps its
  length), so they are list updates.
\<close>

definition lps_iter :: "js_string \<Rightarrow> nat \<Rightarrow> lps_state \<Rightarrow> lps_state" where
  "lps_iter pattern len s =
     (let i = ls_i s; lps = ls_lps s in
      if char_at pattern i = char_at pattern len then
        (let len' = len + 1; lps' = lps[i := len'] in
         \<lparr>ls_i = i + 1, ls_length = Some len', ls_lps = lps',
          ls_steps = ls_steps s @ [LpsMatch lps' i len']\<rparr>)
      else if len \<noteq> 0 then
        (let len' = array_get lps (len - 1) in
         \<lparr>ls_i = i, ls_length = len', ls_lps = lps,
          ls_steps = ls_steps s @ [LpsFallback lps i len' len]\<rparr>)
      else
        (let lps' = lps[i := 0] in
         \<lparr>ls_i = i + 1, ls_length = Some len, ls_lps = lps',
          ls_steps = ls_steps s @ [LpsZero lps' i]\<rparr>))"

text \<open>
  The loop. A run that does not leave the loop has no result (\<open>None\<close>). Once \<open>length\<close> is
  \<open>undefined\<close> the loop cannot be left: \<open>pattern[i] === pattern[undefined]\<close> is false
  for \<open>i < m\<close>, \<open>undefined !== 0\<close> holds, and \<open>lps[undefined - 1]\<close> is \<open>undefined\<close>
  again, with \<open>i\<close> unchanged.
\<close>

partial_function (option) lps_loop :: "js_string \<Rightarrow> lps_state \<Rightarrow> lps_state option" where
  "lps_loop pattern s =
     (if ls_i s < length pattern then
        (case ls_length s of
           None \<Rightarrow> None
         | Some len \<Rightarrow> lps_loop pattern (lps_iter pattern len s))
      else Some s)"

declare lps_loop.simps [code]

text \<open>The result \<open>{ lpsArray, lpsSteps }\<close> as a pair.\<close>

definition lps_init :: "js_string \<Rightarrow> lps_state" where
  "lps_init pattern =
     (let lps = replicate (length pattern) 0 in
      \<lparr>ls_i = 1, ls_length = Some 0, ls_lps = lps, ls_steps = [LpsInit lps]\<rparr>)"

definition computeLPSWithSteps :: "js_string \<Rightarrow> (nat list \<times> lps_step list) option" where
  "computeLPSWithSteps pattern =
     (case lps_loop pattern (lps_init pattern) of
        None \<Rightarrow> None
      | Some s \<Rightarrow> Some (ls_lps s, ls_steps s @ [LpsComplete (ls_lps s)]))"

section \<open>kmp.js: the exact-match scanner\<close>

text \<open>
  The steps of \<open>kmpSearchWithSteps\<close>, with the fields \<open>textIndex\<close>, \<open>patternIndex\<close>,
  \<open>patternOffset\<close>, \<open>matches\<close>, \<open>comparisons\<close>; \<open>mismatch_shift\<close> adds \<open>lpsValue\<close>
  and \<open>shiftAmount\<close> (\<open>undefined\<close> and \<open>NaN\<close> when the table read is out of range),
  \<open>search_complete\<close> has \<open>matches\<close>, \<open>comparisons\<close>, \<open>totalMatches\<close>. \<open>foundAt\<close>
  repeats \<open>patternOffset\<close>, \<open>currentComparison\<close> repeats the indices and the step type.
  Offsets are differences \<open>i - j\<close> and are integers.
\<close>

datatype search_step =
    SearchInit
  | Match nat nat int "int list" nat
  | PatternFound nat nat int "int list" nat
  | MismatchShift nat nat int "int list" nat "nat option" "int option"
  | MismatchAdvance nat nat int "int list" nat
  | SearchComplete "int list" nat nat

record kmp_state =
  ks_i :: nat
  ks_j :: "nat option"
  ks_matches :: "int list"
  ks_steps :: "search_step list"
  ks_comparisons :: nat

text \<open>The body of \<open>while (i < n)\<close>, entered with \<open>j\<close> a number.\<close>

definition kmp_iter :: "js_string \<Rightarrow> js_string \<Rightarrow> nat list \<Rightarrow> nat \<Rightarrow> kmp_state \<Rightarrow> kmp_state" where
  "kmp_iter text pattern lps j s =
     (let i = ks_i s; m = length pattern; matches = ks_matches s;
          patternOffset = int i - int j;
          comparisons = ks_comparisons s + 1 in
      if char_at pattern j = char_at text i then
        (let steps = ks_steps s @ [Match i j patternOffset matches comparisons];
             i' = i + 1; j' = j + 1 in
         if j' = m then
           (let matchIndex = int i' - int j'; matches' = matches @ [matchIndex] in
            \<lparr>ks_i = i', ks_j = array_get lps (j' - 1), ks_matches = matches',
             ks_steps = steps @ [PatternFound i' j' matchIndex matches' comparisons],
             ks_comparisons = comparisons\<rparr>)
         else
           \<lparr>ks_i = i', ks_j = Some j', ks_matches = matches, ks_steps = steps,
            ks_comparisons = comparisons\<rparr>)
      else if j \<noteq> 0 then
        (let lpsValue = array_get lps (j - 1);
             shift = map_option (\<lambda>v. int j - int v) lpsValue in
         \<lparr>ks_i = i, ks_j = lpsValue, ks_matches = matches,
          ks_steps = ks_steps s @ [MismatchShift i j patternOffset matches comparisons lpsValue shift],
          ks_comparisons = comparisons\<rparr>)
      else
        \<lparr>ks_i = i + 1, ks_j = Some j, ks_matches = matches,
         ks_steps = ks_steps s @ [MismatchAdvance i j patternOffset matches comparisons],
         ks_comparisons = comparisons\<rparr>)"

text \<open>
  The loop. With \<open>j\<close> \<open>undefined\<close> and \<open>i < n\<close> the loop cannot be left:
  \<open>pattern[undefined] === text[i]\<close> is false, \<open>undefined !== 0\<close> holds and
  \<open>j = lps[undefined - 1]\<close> is \<open>undefined\<close> again, with \<open>i\<close> unchanged; such a run
  has no result.
\<close>

partial_function (option) kmp_loop ::
  "js_string \<Rightarrow> js_string \<Rightarrow> nat list \<Rightarrow> kmp_state \<Rightarrow> kmp_state option" where
  "kmp_loop text pattern lps s =
     (if ks_i s < length text then
        (case ks_j s of
           None \<Rightarrow> None
         | Some j \<Rightarrow> kmp_loop text pattern lps (kmp_iter text pattern lps j s))
      else Some s)"

declare kmp_loop.simps [code]

text \<open>The result \<open>{ matches, matchingSteps: steps, totalComparisons: comparisons }\<close>.\<close>

record kmp_search_result =
  matches :: "int list"
  matchingSteps :: "search_step list"
  totalComparisons :: nat

definition kmp_init :: kmp_state where
  "kmp_init = \<lparr>ks_i = 0, ks_j = Some 0, ks_matches = [], ks_steps = [SearchInit],
               ks_comparisons = 0\<rparr>"

definition kmpSearchWithSteps ::
  "js_string \<Rightarrow> js_string \<Rightarrow> nat list \<Rightarrow> kmp_search_result option" where
  "kmpSearchWithSteps text pattern lps =
     (case kmp_loop text pattern lps kmp_init of
        None \<Rightarrow> None
      | Some s \<Rightarrow>
          Some \<lparr>matches = ks_matches s,
                matchingSteps = ks_steps s @
                  [SearchComplete (ks_matches s) (ks_comparisons s) (length (ks_matches s))],
                totalComparisons = ks_comparisons s\<rparr>)"

text \<open>
  \<open>kmpAlgorithm\<close>: the two guards throw; \<open>!text\<close> holds of the empty string only. The
  result object keeps the fields computed here; \<open>algorithm\<close>, the two
  \<open>description\<close>s and the complexity labels are constants and are left out.
\<close>

record kmp_result =
  kr_text :: js_string
  kr_pattern :: js_string
  kr_lpsArray :: "nat list"
  kr_preprocessing :: "lps_step list"
  kr_matching :: "search_step list"
  kr_matches :: "int list"
  kr_matchCount :: nat
  kr_totalComparisons :: nat

definition kmpAlgorithm :: "js_string \<Rightarrow> js_string \<Rightarrow> (error + kmp_result) option" where
  "kmpAlgorithm text pattern =
     (if text = [] \<or> pattern = [] then
        Some (Inl (Error ''Both text and pattern are required''))
      else if length pattern > length text then
        Some (Inl (Error ''Pattern length cannot exceed text length''))
      else
        (case computeLPSWithSteps pattern of
           None \<Rightarrow> None
         | Some (lpsArray, lpsSteps) \<Rightarrow>
             (case kmpSearchWithSteps text pattern lpsArray of
                None \<Rightarrow> None
              | Some r \<Rightarrow>
                  Some (Inr \<lparr>kr_text = text, kr_pattern = pattern, kr_lpsArray = lpsArray,
                             kr_preprocessing = lpsSteps, kr_matching = matchingSteps r,
                             kr_matches = matches r, kr_matchCount = length (matches r),
                             kr_totalComparisons = totalComparisons r\<rparr>))))"

text \<open>
  The brute-force scan of the specification: every offset \<open>i\<close> from \<open>0\<close> to \<open>n - m\<close>
  at which the \<open>m\<close> characters of the text from \<open>i\<close> on are the pattern.
\<close>

definition bruteForce :: "js_string \<Rightarrow> js_string \<Rightarrow> int list" where
  "bruteForce text pattern =
     map int (filter (\<lambda>i. take (length pattern) (drop i text) = pattern)
                [0 ..< length text + 1 - length pattern])"

section \<open>rabin-karp.js: numbers\<close>

text \<open>
  A JavaScript number is an IEEE 754 double. The numbers of the hash arithmetic are
  integers (code units, the base, the modulus, and sums, products and remainders of
  these), the two infinities and \<open>NaN\<close>: \<open>Fin x\<close> is the double of integer value \<open>x\<close>.
  The exact sum or product of two integers is rounded to the nearest double, ties to the
  even significand (\<open>to_double\<close>): an integer below \<open>2^53\<close> in magnitude is kept as it
  is, a larger one keeps its 53 leading bits, and a result of magnitude \<open>2^1024\<close> or more
  is an infinity. The remainder \<open>%\<close> has the sign of the dividend and is exact; \<open>x % 0\<close>
  is \<open>NaN\<close>. \<open>===\<close> is false as soon as one side is \<open>NaN\<close>. The two zeros are
  one value here (they are equal under \<open>===\<close> and behave alike in sums). The base and
  the modulus are numbers of the caller, hence doubles: \<open>Fin x\<close> with an \<open>x\<close> that a
  double represents, as are all results of the operations below.
\<close>

datatype number = Fin int | PosInf | NegInf | NaN

text \<open>The number of binary digits of a positive integer.\<close>

function bit_length :: "int \<Rightarrow> nat" where
  "bit_length n = (if n \<le> 0 then 0 else Suc (bit_length (n div 2)))"
  by pat_completeness auto

termination
  by (relation "measure nat") auto

declare bit_length.simps [simp del]

definition round_even :: "int \<Rightarrow> int" where
  "round_even a =
     (if a < 2 ^ 53 then a
      else (let e = bit_length a - 53; q = a div 2 ^ e; r = a mod 2 ^ e in
            (if 2 ^ e < 2 * r \<or> (2 * r = 2 ^ e \<and> odd q) then q + 1 else q) * 2 ^ e))"

definition to_double :: "int \<Rightarrow> number" where
  "to_double x =
     (let r = round_even \<bar>x\<bar> in
      if 2 ^ 1024 \<le> r then (if x < 0 then NegInf else PosInf)
      else Fin (if x < 0 then - r else r))"

fun js_neg :: "number \<Rightarrow> number" where
  "js_neg (Fin a) = Fin (- a)"
| "js_neg PosInf = NegInf"
| "js_neg NegInf = PosInf"
| "js_neg NaN = NaN"

fun js_add :: "number \<Rightarrow> number \<Rightarrow> number" where
  "js_add (Fin a) (Fin b) = to_double (a + b)"
| "js_add NaN y = NaN"
| "js_add x NaN = NaN"
| "js_add PosInf NegInf = NaN"
| "js_add NegInf PosInf = NaN"
| "js_add PosInf y = PosInf"
| "js_add NegInf y = NegInf"
| "js_add x PosInf = PosInf"
| "js_add x NegInf = NegInf"

definition js_sub :: "number \<Rightarrow> number \<Rightarrow> number" where
  "js_sub x y = js_add x (js_neg y)"

fun js_mul :: "number \<Rightarrow> number \<Rightarrow> number" where
  "js_mul (Fin a) (Fin b) = to_double (a * b)"
| "js_mul NaN y = NaN"
| "js_mul x NaN = NaN"
| "js_mul (Fin a) y = (if a = 0 then NaN else if 0 < a then y else js_neg y)"
| "js_mul x (Fin b) = (if b = 0 then NaN else if 0 < b then x else js_neg x)"
| "js_mul x y = (if x = y then PosInf else NegInf)"

fun js_rem :: "number \<Rightarrow> number \<Rightarrow> number" where
  "js_rem (Fin a) (Fin b) = (if b = 0 then NaN else Fin (sgn a * (\<bar>a\<bar> mod \<bar>b\<bar>)))"
| "js_rem (Fin a) PosInf = Fin a"
| "js_rem (Fin a) NegInf = Fin a"
| "js_rem x y = NaN"

fun js_eq :: "number \<Rightarrow> number \<Rightarrow> bool" where
  "js_eq NaN y = False"
| "js_eq x NaN = False"
| "js_eq x y = (x = y)"

section \<open>rabin-karp.js: hashing\<close>

definition DEFAULT_BASE :: number where "DEFAULT_BASE = Fin 256"

definition DEFAULT_MODULO :: number where "DEFAULT_MODULO = Fin 101"

text \<open>\<open>s.charCodeAt(i)\<close>: the code unit at \<open>i\<close>, \<open>NaN\<close> out of range.\<close>

definition charCodeAt :: "js_string \<Rightarrow> nat \<Rightarrow> number" where
  "charCodeAt s i = (if i < length s then Fin (uint (s ! i)) else NaN)"

text \<open>
  The body \<open>hash = (hash * base + str.charCodeAt(i)) % mod\<close> of the loops over
  \<open>i = 0 .. length - 1\<close> in \<open>computeHash\<close> and, inline, for the first window in
  \<open>rabinKarpSearchWithSteps\<close>. (The parameter \<open>mod\<close> of the source is \<open>modulus\<close> here.)
\<close>

definition hash_update :: "js_string \<Rightarrow> number \<Rightarrow> number \<Rightarrow> nat \<Rightarrow> number \<Rightarrow> number" where
  "hash_update s base modulus i hash = js_rem (js_add (js_mul hash base) (charCodeAt s i)) modulus"

definition computeHash :: "js_string \<Rightarrow> number \<Rightarrow> number \<Rightarrow> number" where
  "computeHash s base modulus = fold (hash_update s base modulus) [0..<length s] (Fin 0)"

text \<open>
  The steps of \<open>computePatternHashWithSteps\<close>: \<open>hash_init\<close> with \<open>base\<close> and \<open>mod\<close>;
  \<open>hash_step\<close> with \<open>currentIndex\<close>, \<open>charCode\<close>, \<open>oldHash\<close>, \<open>newHash\<close>;
  \<open>hash_complete\<close> with \<open>finalHash\<close>.
\<close>

datatype hash_step =
    HashInit number number
  | HashStep nat number number number
  | HashComplete number

definition hash_iter ::
  "js_string \<Rightarrow> number \<Rightarrow> number \<Rightarrow> nat \<Rightarrow> number \<times> hash_step list \<Rightarrow> number \<times> hash_step list" where
  "hash_iter pattern base modulus i st =
     (let charCode = charCodeAt pattern i; oldHash = fst st;
          hash = js_rem (js_add (js_mul oldHash base) charCode) modulus in
      (hash, snd st @ [HashStep i charCode oldHash hash]))"

definition computePatternHashWithSteps ::
  "js_string \<Rightarrow> number \<Rightarrow> number \<Rightarrow> number \<times> hash_step list" where
  "computePatternHashWithSteps pattern base modulus =
     (let st = fold (hash_iter pattern base modulus) [0..<length pattern] (Fin 0, [HashInit base modulus])
      in (fst st, snd st @ [HashComplete (fst st)]))"

text \<open>
  \<open>computeH\<close>: \<open>patternLength - 1\<close> iterations of \<open>h = (h * base) % mod\<close>, none when
  the length is \<open>0\<close> or \<open>1\<close>.
\<close>

definition computeH :: "nat \<Rightarrow> number \<Rightarrow> number \<Rightarrow> number" where
  "computeH patternLength base modulus =
     fold (\<lambda>i h. js_rem (js_mul h base) modulus) [0..<patternLength - 1] (Fin 1)"

section \<open>rabin-karp.js: the rolling-hash scanner\<close>

text \<open>
  An entry of \<open>verificationSteps\<close>: \<open>textIndex\<close>, \<open>patternIndex\<close>, \<open>textChar\<close>,
  \<open>patternChar\<close>, \<open>match\<close>. The steps of the scanner carry \<open>windowStart\<close>,
  \<open>windowEnd\<close>, \<open>patternHash\<close>, \<open>textHash\<close>, the two counters, and for
  \<open>pattern_found\<close> the matches and for it and \<open>spurious_hit\<close> the verification;
  \<open>rolling_hash\<close> has \<open>oldWindowStart\<close>, \<open>newWindowStart\<close>, \<open>removedChar\<close>,
  \<open>removedCharCode\<close>, \<open>addedChar\<close>, \<open>addedCharCode\<close>, \<open>oldHash\<close>, \<open>newHash\<close>,
  \<open>hValue\<close>; \<open>search_init\<close> has \<open>patternHash\<close>, \<open>initialTextHash\<close>, \<open>hValue\<close>,
  \<open>windowEnd\<close>; \<open>search_complete\<close> has the matches, the counters and \<open>totalMatches\<close>.
\<close>

type_synonym verification = "nat \<times> nat \<times> 16 word option \<times> 16 word option \<times> bool"

datatype rk_step =
    RkSearchInit number number number int
  | RkHashMatch nat int number number nat nat
  | RkPatternFound nat int number number "int list" nat nat "verification list"
  | RkSpuriousHit nat int number number nat nat "verification list"
  | RkHashMismatch nat int number number nat nat
  | RkRollingHash nat nat "16 word option" number "16 word option" number number number number
  | RkSearchComplete "int list" nat nat nat

text \<open>
  The verification loop \<open>for (j = 0; j < m; j++)\<close> with its \<open>break\<close> at the first
  mismatch; it returns \<open>match\<close>, \<open>charComparisons\<close> and \<open>verificationSteps\<close>.
\<close>

function verify ::
  "js_string \<Rightarrow> js_string \<Rightarrow> nat \<Rightarrow> nat \<Rightarrow> nat \<Rightarrow> verification list \<Rightarrow> bool \<times> nat \<times> verification list" where
  "verify text pattern i j charComparisons vs =
     (if j < length pattern then
        (let isMatch = (char_at text (i + j) = char_at pattern j);
             vs' = vs @ [(i + j, j, char_at text (i + j), char_at pattern j, isMatch)] in
         if \<not> isMatch then (False, charComparisons + 1, vs')
         else verify text pattern i (j + 1) (charComparisons + 1) vs')
      else (True, charComparisons, vs))"
  by pat_completeness auto

termination
  by (relation "measure (\<lambda>(text, pattern, i, j, c, vs). length pattern - j)") auto

declare verify.simps [simp del]

record rk_state =
  rs_textHash :: number
  rs_matches :: "int list"
  rs_steps :: "rk_step list"
  rs_hashComparisons :: nat
  rs_charComparisons :: nat

text \<open>
  \<open>textHash = ((base * (textHash - removedCharCode * h) + addedCharCode) % mod + mod) % mod\<close>
\<close>

definition rolling_update :: "number \<Rightarrow> number \<Rightarrow> number \<Rightarrow> number \<Rightarrow> number \<Rightarrow> number \<Rightarrow> number" where
  "rolling_update base modulus h textHash removedCharCode addedCharCode =
     js_rem (js_add (js_rem (js_add (js_mul base (js_sub textHash (js_mul removedCharCode h)))
                                    addedCharCode) modulus) modulus) modulus"

text \<open>
  One iteration of \<open>for (i = 0; i <= n - m; i++)\<close>: the hash comparison with the
  verification (\<open>rk_check\<close>), then the rolling update when \<open>i < n - m\<close> (\<open>rk_roll\<close>).
\<close>

definition rk_check ::
  "js_string \<Rightarrow> js_string \<Rightarrow> number \<Rightarrow> nat \<Rightarrow> rk_state \<Rightarrow> rk_state" where
  "rk_check text pattern patternHash i s =
     (let m = length pattern; textHash = rs_textHash s; windowEnd = int i + int m - 1;
          hashComparisons = rs_hashComparisons s + 1 in
      if js_eq patternHash textHash then
        (let steps = rs_steps s @ [RkHashMatch i windowEnd patternHash textHash hashComparisons
                                     (rs_charComparisons s)];
             (match, charComparisons, verificationSteps) =
                verify text pattern i 0 (rs_charComparisons s) [] in
         if match then
           (let matches' = rs_matches s @ [int i] in
            s\<lparr>rs_matches := matches',
              rs_steps := steps @ [RkPatternFound i windowEnd patternHash textHash matches'
                                     hashComparisons charComparisons verificationSteps],
              rs_hashComparisons := hashComparisons, rs_charComparisons := charComparisons\<rparr>)
         else
           s\<lparr>rs_steps := steps @ [RkSpuriousHit i windowEnd patternHash textHash
                                     hashComparisons charComparisons verificationSteps],
             rs_hashComparisons := hashComparisons, rs_charComparisons := charComparisons\<rparr>)
      else
        s\<lparr>rs_steps := rs_steps s @ [RkHashMismatch i windowEnd patternHash textHash hashComparisons
                                      (rs_charComparisons s)],
          rs_hashComparisons := hashComparisons\<rparr>)"

definition rk_roll ::
  "js_string \<Rightarrow> js_string \<Rightarrow> number \<Rightarrow> number \<Rightarrow> number \<Rightarrow> nat \<Rightarrow> rk_state \<Rightarrow> rk_state" where
  "rk_roll text pattern base modulus h i s =
     (let n = length text; m = length pattern in
      if int i < int n - int m then
        (let oldHash = rs_textHash s;
             removedChar = char_at text i; removedCharCode = charCodeAt text i;
             addedChar = char_at text (i + m); addedCharCode = charCodeAt text (i + m);
             textHash = rolling_update base modulus h oldHash removedCharCode addedCharCode in
         s\<lparr>rs_textHash := textHash,
           rs_steps := rs_steps s @ [RkRollingHash i (i + 1) removedChar removedCharCode
                                       addedChar addedCharCode oldHash textHash h]\<rparr>)
      else s)"

definition rk_iter ::
  "js_string \<Rightarrow> js_string \<Rightarrow> number \<Rightarrow> number \<Rightarrow> number \<Rightarrow> number \<Rightarrow> nat \<Rightarrow> rk_state \<Rightarrow> rk_state" where
  "rk_iter text pattern patternHash base modulus h i s =
     rk_roll text pattern base modulus h i (rk_check text pattern patternHash i s)"

text \<open>
  The state before the loop, and the state after the first \<open>k\<close> iterations; the scanner
  runs \<open>n - m + 1\<close> of them, none when \<open>m > n\<close>.
\<close>

definition rk_init :: "js_string \<Rightarrow> js_string \<Rightarrow> number \<Rightarrow> number \<Rightarrow> number \<Rightarrow> rk_state" where
  "rk_init text pattern patternHash base modulus =
     (let m = length pattern; h = computeH m base modulus;
          textHash = fold (hash_update text base modulus) [0..<m] (Fin 0) in
      \<lparr>rs_textHash = textHash, rs_matches = [],
       rs_steps = [RkSearchInit patternHash textHash h (int m - 1)],
       rs_hashComparisons = 0, rs_charComparisons = 0\<rparr>)"

definition rk_loop ::
  "js_string \<Rightarrow> js_string \<Rightarrow> number \<Rightarrow> number \<Rightarrow> number \<Rightarrow> nat \<Rightarrow> rk_state" where
  "rk_loop text pattern patternHash base modulus k =
     fold (rk_iter text pattern patternHash base modulus (computeH (length pattern) base modulus))
       [0..<k] (rk_init text pattern patternHash base modulus)"

record rk_search_result =
  rk_matches :: "int list"
  rk_matchingSteps :: "rk_step list"
  rk_hashComparisons :: nat
  rk_charComparisons :: nat

definition rabinKarpSearchWithSteps ::
  "js_string \<Rightarrow> js_string \<Rightarrow> number \<Rightarrow> number \<Rightarrow> number \<Rightarrow> rk_search_result" where
  "rabinKarpSearchWithSteps text pattern patternHash base modulus =
     (let s = rk_loop text pattern patternHash base modulus
                (nat (int (length text) - int (length pattern) + 1)) in
      \<lparr>rk_matches = rs_matches s,
       rk_matchingSteps = rs_steps s @
          [RkSearchComplete (rs_matches s) (rs_hashComparisons s) (rs_charComparisons s)
             (length (rs_matches s))],
       rk_hashComparisons = rs_hashComparisons s,
       rk_charComparisons = rs_charComparisons s\<rparr>)"

text \<open>
  \<open>rabinKarpAlgorithm\<close>, with its default parameters (an argument left out is \<open>None\<close>)
  and its two guards. The result keeps the computed fields; the constant texts are left out.
\<close>

record rk_result =
  rr_text :: js_string
  rr_pattern :: js_string
  rr_base :: number
  rr_modulo :: number
  rr_patternHash :: number
  rr_preprocessing :: "hash_step list"
  rr_matching :: "rk_step list"
  rr_matches :: "int list"
  rr_matchCount :: nat
  rr_hashComparisons :: nat
  rr_charComparisons :: nat
  rr_totalComparisons :: nat

definition rabinKarpAlgorithm ::
  "js_string \<Rightarrow> js_string \<Rightarrow> number option \<Rightarrow> number option \<Rightarrow> error + rk_result" where
  "rabinKarpAlgorithm text pattern base_arg mod_arg =
     (let base = (case base_arg of None \<Rightarrow> DEFAULT_BASE | Some b \<Rightarrow> b);
          modulus = (case mod_arg of None \<Rightarrow> DEFAULT_MODULO | Some q \<Rightarrow> q) in
      if text = [] \<or> pattern = [] then
        Inl (Error ''Both text and pattern are required'')
      else if length pattern > length text then
        Inl (Error ''Pattern length cannot exceed text length'')
      else
        (let (patternHash, hashSteps) = computePatternHashWithSteps pattern base modulus;
             r = rabinKarpSearchWithSteps text pattern patternHash base modulus in
         Inr \<lparr>rr_text = text, rr_pattern = pattern, rr_base = base, rr_modulo = modulus,
              rr_patternHash = patternHash, rr_preprocessing = hashSteps,
              rr_matching = rk_matchingSteps r, rr_matches = rk_matches r,
              rr_matchCount = length (rk_matches r),
              rr_hashComparisons = rk_hashComparisons r,
              rr_charComparisons = rk_charComparisons r,
              rr_totalComparisons = rk_hashComparisons r + rk_charComparisons r\<rparr>))"

text \<open>
  routes/rabin-karp.js, the choice of the parameters:
  \<open>base && Number.isInteger(base) && base > 0 ? base : 256\<close>, and the same for
  \<open>modulo\<close> with 101. A value that is not a number, \<open>NaN\<close>, an infinity, zero or a
  negative number gives the default \<open>d\<close>. (A request value that is not a number is
  \<open>None\<close>; a number that is not an integer is not a value of \<open>number\<close>.)
\<close>

definition route_param :: "number option \<Rightarrow> int \<Rightarrow> number" where
  "route_param v d = (case v of Some (Fin x) \<Rightarrow> if 0 < x then Fin x else Fin d | _ \<Rightarrow> Fin d)"

section \<open>Predicates of the proofs\<close>

text \<open>
  \<open>pre_at p t k j\<close>: the first \<open>j\<close> characters of \<open>p\<close> are the \<open>j\<close> characters of \<open>t\<close>
  that end before position \<open>k\<close>. \<open>is_lps p k v\<close>: \<open>v\<close> is the greatest \<open>v \<le> k\<close> such that
  the first \<open>v\<close> characters of \<open>p\<close> end \<open>p[0..k]\<close>.
\<close>

definition pre_at :: "'a list \<Rightarrow> 'a list \<Rightarrow> nat \<Rightarrow> nat \<Rightarrow> bool" where
  "pre_at p t k j \<longleftrightarrow> j \<le> k \<and> k \<le> length t \<and> j \<le> length p \<and> (\<forall>d<j. p ! d = t ! (k - j + d))"

definition is_lps :: "'a list \<Rightarrow> nat \<Rightarrow> nat \<Rightarrow> bool" where
  "is_lps p k v \<longleftrightarrow> v \<le> k \<and> pre_at p p (k + 1) v \<and> (\<forall>u. u \<le> k \<and> pre_at p p (k + 1) u \<longrightarrow> u \<le> v)"

text \<open>The invariant of the builder's loop, and a finished table.\<close>

definition lps_inv :: "js_string \<Rightarrow> lps_state \<Rightarrow> bool" where
  "lps_inv p s \<longleftrightarrow>
     length (ls_lps s) = length p \<and> 1 \<le> ls_i s \<and> ls_i s \<le> length p \<and>
     (\<forall>k<ls_i s. is_lps p k (ls_lps s ! k)) \<and>
     (\<exists>len. ls_length s = Some len \<and> len < ls_i s \<and> pre_at p p (ls_i s) len \<and>
        (\<forall>u. len < u \<and> u < ls_i s \<and> pre_at p p (ls_i s) u \<longrightarrow> p ! u \<noteq> p ! ls_i s))"

definition table_ok :: "'a list \<Rightarrow> nat list \<Rightarrow> bool" where
  "table_ok p lps \<longleftrightarrow> length lps = length p \<and> (\<forall>k<length p. is_lps p k (lps ! k))"

text \<open>
  The words of the specification: \<open>k\<close> is the length of a proper prefix of \<open>xs\<close> that is
  also a suffix of \<open>xs\<close>, and the longest such.
\<close>

definition proper_border :: "'a list \<Rightarrow> nat \<Rightarrow> bool" where
  "proper_border xs k \<longleftrightarrow> k < length xs \<and> take k xs = drop (length xs - k) xs"

definition longest_border :: "'a list \<Rightarrow> nat \<Rightarrow> bool" where
  "longest_border xs k \<longleftrightarrow> proper_border xs k \<and> (\<forall>k'. proper_border xs k' \<longrightarrow> k' \<le> k)"

text \<open>The pattern occurs in the text at offset \<open>k\<close>; the invariant of the scanner's loop.\<close>

definition occurs_at :: "'a list \<Rightarrow> 'a list \<Rightarrow> nat \<Rightarrow> bool" where
  "occurs_at p t k \<longleftrightarrow> pre_at p t (k + length p) (length p)"

definition kmp_inv :: "js_string \<Rightarrow> js_string \<Rightarrow> kmp_state \<Rightarrow> bool" where
  "kmp_inv t p s \<longleftrightarrow>
     (\<exists>j. ks_j s = Some j \<and> j < length p \<and> pre_at p t (ks_i s) j \<and>
        ks_matches s = map int (filter (occurs_at p t) [0..<ks_i s - j]))"

text \<open>The field \<open>textIndex\<close> of a step, and the invariant of the trace.\<close>

fun textIndex :: "search_step \<Rightarrow> nat option" where
  "textIndex SearchInit = Some 0"
| "textIndex (Match i j off ms c) = Some i"
| "textIndex (PatternFound i j off ms c) = Some i"
| "textIndex (MismatchShift i j off ms c v sh) = Some i"
| "textIndex (MismatchAdvance i j off ms c) = Some i"
| "textIndex (SearchComplete ms c k) = None"

definition text_indices :: "search_step list \<Rightarrow> nat list" where
  "text_indices steps = List.map_filter textIndex steps"

definition trace_inv :: "kmp_state \<Rightarrow> bool" where
  "trace_inv s \<longleftrightarrow> sorted (text_indices (ks_steps s)) \<and>
     (\<forall>x\<in>set (text_indices (ks_steps s)). x \<le> ks_i s)"

text \<open>
  The polynomial of the specification, \<open>\<Sum> code(s[k]) * b^(m-1-k)\<close>, before the
  reduction modulo the modulus.
\<close>

definition poly_hash :: "int \<Rightarrow> js_string \<Rightarrow> int" where
  "poly_hash b s = (\<Sum>k<length s. uint (s ! k) * b ^ (length s - 1 - k))"

text \<open>
  The window of the text at offset \<open>i\<close> agrees with the pattern character by character
  (what the verification loop tests).
\<close>

definition window_matches :: "js_string \<Rightarrow> js_string \<Rightarrow> nat \<Rightarrow> bool" where
  "window_matches text pattern i \<longleftrightarrow>
     (\<forall>j<length pattern. char_at text (i + j) = char_at pattern j)"

text \<open>
  Of a \<open>rolling_hash\<close> step, the pair \<open>(newWindowStart, newHash)\<close>; of a \<open>spurious_hit\<close>
  step, its \<open>windowStart\<close>.
\<close>

fun rolling_target :: "rk_step \<Rightarrow> (nat \<times> number) option" where
  "rolling_target (RkRollingHash i i' rc rcc ac acc old new h) = Some (i', new)"
| "rolling_target st = None"

definition rolling_targets :: "rk_step list \<Rightarrow> (nat \<times> number) list" where
  "rolling_targets steps = List.map_filter rolling_target steps"

fun spurious_at :: "rk_step \<Rightarrow> nat option" where
  "spurious_at (RkSpuriousHit i we ph th hc cc vs) = Some i"
| "spurious_at st = None"

section \<open>Lemmas: prefixes and borders\<close>

lemma pre_at_0: "pre_at p t k 0 \<longleftrightarrow> k \<le> length t"
  by (simp add: pre_at_def)

lemma pre_at_extend:
  assumes "pre_at p t k j" "k < length t" "j < length p" "p ! j = t ! k"
  shows "pre_at p t (Suc k) (Suc j)"
  using assms by (auto simp: pre_at_def less_Suc_eq)

lemma pre_at_shrink:
  assumes "pre_at p t (Suc k) (Suc j)"
  shows "pre_at p t k j \<and> p ! j = t ! k"
proof -
  from assms have a: "j \<le> k" "Suc k \<le> length t" "Suc j \<le> length p"
    and b: "\<forall>d<Suc j. p ! d = t ! (Suc k - Suc j + d)"
    by (auto simp: pre_at_def)
  from b have "p ! j = t ! (Suc k - Suc j + j)" by blast
  moreover have "Suc k - Suc j + j = k" using a by simp
  ultimately have "p ! j = t ! k" by simp
  moreover have "pre_at p t k j" using a b by (auto simp: pre_at_def)
  ultimately show ?thesis by simp
qed

lemma pre_at_border:
  assumes "pre_at p t k j" "pre_at p p j v"
  shows "pre_at p t k v"
proof -
  from assms have a: "j \<le> k" "k \<le> length t" "j \<le> length p" "v \<le> j"
    and b: "\<forall>d<j. p ! d = t ! (k - j + d)" and c: "\<forall>d<v. p ! d = p ! (j - v + d)"
    by (auto simp: pre_at_def)
  have "p ! d = t ! (k - v + d)" if "d < v" for d
  proof -
    have "p ! d = p ! (j - v + d)" using c that by blast
    also have "\<dots> = t ! (k - j + (j - v + d))" using b that a by simp
    also have "k - j + (j - v + d) = k - v + d" using a that by simp
    finally show ?thesis .
  qed
  then show ?thesis using a by (simp add: pre_at_def)
qed

lemma pre_at_overlap:
  assumes "pre_at p t k j" "pre_at p t k v" "v \<le> j"
  shows "pre_at p p j v"
proof -
  from assms have a: "j \<le> k" "k \<le> length t" "j \<le> length p" "v \<le> j"
    and b: "\<forall>d<j. p ! d = t ! (k - j + d)" and c: "\<forall>d<v. p ! d = t ! (k - v + d)"
    by (auto simp: pre_at_def)
  have "p ! d = p ! (j - v + d)" if "d < v" for d
  proof -
    have "p ! (j - v + d) = t ! (k - j + (j - v + d))" using b that a by simp
    also have "k - j + (j - v + d) = k - v + d" using a that by simp
    also have "t ! (k - v + d) = p ! d" using c that by simp
    finally show ?thesis by simp
  qed
  then show ?thesis using a by (simp add: pre_at_def)
qed

lemma pre_at_take: "pre_at p t (k + length p) (length p) \<longleftrightarrow> k + length p \<le> length t \<and> take (length p) (drop k t) = p"
  by (auto simp: pre_at_def list_eq_iff_nth_eq min_def)

lemma is_lps_unique: "is_lps p k v \<Longrightarrow> is_lps p k w \<Longrightarrow> v = w"
  by (meson is_lps_def le_antisym)

lemma is_lps_0: "p \<noteq> [] \<Longrightarrow> is_lps p 0 0"
  by (auto simp: is_lps_def pre_at_def Suc_leI)

lemma lps_inv_init: "p \<noteq> [] \<Longrightarrow> lps_inv p (lps_init p)"
  by (auto simp: lps_inv_def lps_init_def Let_def is_lps_0 pre_at_0 Suc_leI)

lemma lps_step_match:
  assumes inv: "lps_inv p s" and i: "ls_i s < length p" and len: "ls_length s = Some len"
    and eq: "p ! ls_i s = p ! len"
  shows "is_lps p (ls_i s) (len + 1)"
proof -
  let ?i = "ls_i s"
  from inv len have l: "len < ?i" and pl: "pre_at p p ?i len"
    and mx: "\<forall>u. len < u \<and> u < ?i \<and> pre_at p p ?i u \<longrightarrow> p ! u \<noteq> p ! ?i"
    by (auto simp: lps_inv_def)
  have "pre_at p p (Suc ?i) (Suc len)"
    using pre_at_extend [OF pl i] l i eq by simp
  moreover have "u \<le> len + 1" if u: "u \<le> ?i" "pre_at p p (?i + 1) u" for u
  proof (cases u)
    case 0 then show ?thesis by simp
  next
    case (Suc u')
    with u pre_at_shrink [of p p ?i u'] have "pre_at p p ?i u'" "p ! u' = p ! ?i" "u' < ?i"
      by auto
    with mx have "\<not> len < u'" by blast
    with Suc show ?thesis by simp
  qed
  ultimately show ?thesis using l by (simp add: is_lps_def)
qed

lemma lps_step_zero:
  assumes inv: "lps_inv p s" and i: "ls_i s < length p" and len: "ls_length s = Some 0"
    and neq: "p ! ls_i s \<noteq> p ! 0"
  shows "is_lps p (ls_i s) 0"
proof -
  let ?i = "ls_i s"
  from inv len have 
    mx: "\<forall>u. 0 < u \<and> u < ?i \<and> pre_at p p ?i u \<longrightarrow> p ! u \<noteq> p ! ?i"
    unfolding lps_inv_def by simp
  have "u = 0" if u: "u \<le> ?i" "pre_at p p (?i + 1) u" for u
  proof (rule ccontr)
    assume "u \<noteq> 0"
    then obtain u' where u': "u = Suc u'" by (cases u) auto
    from u(2) have "pre_at p p (Suc ?i) (Suc u')" by (simp add: u')
    from pre_at_shrink [OF this] have a: "pre_at p p ?i u'" and b: "p ! u' = p ! ?i"
      by blast+
    have c: "u' < ?i" using u(1) u' by simp
    from mx have "0 < u' \<and> u' < ?i \<and> pre_at p p ?i u' \<longrightarrow> p ! u' \<noteq> p ! ?i"
      by (rule spec)
    with a b c have "u' = 0" by simp
    with b neq show False by metis
  qed
  moreover have "pre_at p p (?i + 1) 0" using i by (simp add: pre_at_0)
  ultimately show ?thesis unfolding is_lps_def by blast
qed

lemma is_lps_no_longer:
  assumes "is_lps p k v" "v < u" "u < Suc k"
  shows "\<not> pre_at p p (Suc k) u"
proof
  assume a: "pre_at p p (Suc k) u"
  from assms(1) have "\<forall>w. w \<le> k \<and> pre_at p p (k + 1) w \<longrightarrow> w \<le> v"
    unfolding is_lps_def by simp
  then have "u \<le> k \<and> pre_at p p (k + 1) u \<longrightarrow> u \<le> v" by (rule spec)
  with a assms(2,3) show False by simp
qed

lemma table_update:
  assumes "\<forall>k<i. is_lps p k (lps ! k)" "is_lps p i v" "i < length lps"
  shows "\<forall>k<Suc i. is_lps p k (lps[i := v] ! k)"
proof (intro allI impI)
  fix k assume "k < Suc i"
  show "is_lps p k (lps[i := v] ! k)"
  proof (cases "k = i")
    case True with assms show ?thesis by simp
  next
    case False
    with \<open>k < Suc i\<close> have "k < i" by simp
    with assms False show ?thesis by simp
  qed
qed

lemma lps_inv_advance:
  assumes inv: "lps_inv p s" and i: "ls_i s < length p" and new: "is_lps p (ls_i s) v"
  shows "lps_inv p \<lparr>ls_i = Suc (ls_i s), ls_length = Some v, ls_lps = (ls_lps s)[ls_i s := v],
                    ls_steps = st\<rparr>"
proof -
  let ?i = "ls_i s" and ?lps = "ls_lps s"
  from inv have sz: "length ?lps = length p" and tb: "\<forall>k<?i. is_lps p k (?lps ! k)"
    unfolding lps_inv_def by simp_all
  have tb': "\<forall>k<Suc ?i. is_lps p k (?lps[?i := v] ! k)"
    by (rule table_update [OF tb new]) (simp add: sz i)
  have nx: "\<forall>u. v < u \<and> u < Suc ?i \<and> pre_at p p (Suc ?i) u \<longrightarrow> p ! u \<noteq> p ! Suc ?i"
    using is_lps_no_longer [OF new] by blast
  have b: "pre_at p p (Suc ?i) v" and vi: "v < Suc ?i"
    using new unfolding is_lps_def by simp_all
  show ?thesis
    unfolding lps_inv_def using tb' nx b vi sz i by simp
qed

lemma lps_inv_fallback:
  assumes inv: "lps_inv p s" and i: "ls_i s < length p" and len: "ls_length s = Some len"
    and neq: "p ! ls_i s \<noteq> p ! len" and nz: "len \<noteq> 0"
  shows "array_get (ls_lps s) (len - 1) = Some (ls_lps s ! (len - 1)) \<and>
         ls_lps s ! (len - 1) < len \<and>
         lps_inv p \<lparr>ls_i = ls_i s, ls_length = Some (ls_lps s ! (len - 1)), ls_lps = ls_lps s,
                    ls_steps = st\<rparr>"
proof -
  let ?i = "ls_i s" and ?lps = "ls_lps s"
  from inv len have l: "len < ?i" and pl: "pre_at p p ?i len" and sz: "length ?lps = length p"
    and i1: "1 \<le> ?i"
    and tb: "\<forall>k<?i. is_lps p k (?lps ! k)"
    and mx: "\<forall>u. len < u \<and> u < ?i \<and> pre_at p p ?i u \<longrightarrow> p ! u \<noteq> p ! ?i"
    by (auto simp: lps_inv_def)
  from nz obtain l' where l': "len = Suc l'" by (cases len) auto
  with l have l'i: "l' < ?i" by simp
  let ?v = "?lps ! l'"
  have v: "is_lps p l' ?v" using tb l'i by blast
  then have vl: "?v \<le> l'" and vb: "pre_at p p len ?v" by (auto simp: is_lps_def l')
  have ag: "array_get ?lps (len - 1) = Some ?v"
    using l' l'i i sz by (simp add: array_get_def)
  have b1: "pre_at p p ?i ?v" by (rule pre_at_border [OF pl vb])
  have b2: "p ! u \<noteq> p ! ?i" if u: "?v < u" "u < ?i" "pre_at p p ?i u" for u
  proof -
    consider "len < u" | "u = len" | "u < len" by linarith
    then show ?thesis
    proof cases
      case 1
      from mx have "len < u \<and> u < ?i \<and> pre_at p p ?i u \<longrightarrow> p ! u \<noteq> p ! ?i" by (rule spec)
      with 1 u show ?thesis by simp
    next
      case 2 with neq show ?thesis by simp
    next
      case 3
      then have "pre_at p p len u" using pre_at_overlap [OF pl u(3)] by simp
      then have "pre_at p p (Suc l') u" by (simp add: l')
      moreover have "u < Suc l'" using 3 l' by simp
      ultimately have False using is_lps_no_longer [OF v u(1)] by simp
      then show ?thesis ..
    qed
  qed
  have "?v < ?i" using vl l'i by simp
  with b1 b2 tb sz i1 i have "lps_inv p \<lparr>ls_i = ?i, ls_length = Some ?v, ls_lps = ?lps, ls_steps = st\<rparr>"
    unfolding lps_inv_def by simp
  with ag vl show ?thesis by (simp add: l')
qed

lemma lps_iter_cases:
  assumes i: "ls_i s < length p" and l: "len < ls_i s"
  shows "lps_iter p len s =
     (if p ! ls_i s = p ! len then
        \<lparr>ls_i = Suc (ls_i s), ls_length = Some (Suc len), ls_lps = (ls_lps s)[ls_i s := Suc len],
         ls_steps = ls_steps s @ [LpsMatch ((ls_lps s)[ls_i s := Suc len]) (ls_i s) (Suc len)]\<rparr>
      else if len \<noteq> 0 then
        \<lparr>ls_i = ls_i s, ls_length = array_get (ls_lps s) (len - 1), ls_lps = ls_lps s,
         ls_steps = ls_steps s @ [LpsFallback (ls_lps s) (ls_i s) (array_get (ls_lps s) (len - 1)) len]\<rparr>
      else
        \<lparr>ls_i = Suc (ls_i s), ls_length = Some 0, ls_lps = (ls_lps s)[ls_i s := 0],
         ls_steps = ls_steps s @ [LpsZero ((ls_lps s)[ls_i s := 0]) (ls_i s)]\<rparr>)"
  using assms by (simp add: lps_iter_def Let_def char_at_def)

lemma lps_iter_inv:
  assumes inv: "lps_inv p s" and i: "ls_i s < length p" and len: "ls_length s = Some len"
  shows "lps_inv p (lps_iter p len s)"
proof -
  from inv len have l: "len < ls_i s" by (auto simp: lps_inv_def)
  note c = lps_iter_cases [OF i l]
  show ?thesis
  proof (cases "p ! ls_i s = p ! len")
    case True
    have "is_lps p (ls_i s) (Suc len)" using lps_step_match [OF inv i len True] by simp
    from lps_inv_advance [OF inv i this] show ?thesis using True by (simp add: c)
  next
    case False
    show ?thesis
    proof (cases "len = 0")
      case True
      with False len have "is_lps p (ls_i s) 0"
        using lps_step_zero [OF inv i] by simp
      from lps_inv_advance [OF inv i this] show ?thesis unfolding c using True False by simp
    next
      case nz: False
      from lps_inv_fallback [OF inv i len False nz] show ?thesis
        using False nz by (simp add: c)
    qed
  qed
qed

text \<open>The measure of the claim: \<open>(m - i, length)\<close> in the lexicographic order.\<close>

lemma lps_iter_decreases:
  assumes inv: "lps_inv p s" and i: "ls_i s < length p" and len: "ls_length s = Some len"
  shows "\<exists>len'. ls_length (lps_iter p len s) = Some len' \<and>
           (length p - ls_i (lps_iter p len s) < length p - ls_i s \<or>
            ls_i (lps_iter p len s) = ls_i s \<and> len' < len)"
proof -
  from inv len have l: "len < ls_i s" by (auto simp: lps_inv_def)
  note c = lps_iter_cases [OF i l]
  show ?thesis
  proof (cases "p ! ls_i s \<noteq> p ! len \<and> len \<noteq> 0")
    case True
    with lps_inv_fallback [OF inv i len] show ?thesis by (simp add: c)
  next
    case False
    with i show ?thesis by (auto simp: c)
  qed
qed

lemma lps_loop_terminates:
  assumes "lps_inv p s"
  shows "\<exists>s'. lps_loop p s = Some s' \<and> lps_inv p s' \<and> ls_i s' = length p"
  using assms
proof (induction s rule: wf_induct_rule [OF wf_measures [of "[\<lambda>s. length p - ls_i s, \<lambda>s. the (ls_length s)]"]])
  case (1 s)
  show ?case
  proof (cases "ls_i s < length p")
    case True
    from "1.prems" obtain len where len: "ls_length s = Some len"
      by (auto simp: lps_inv_def)
    let ?s = "lps_iter p len s"
    have inv': "lps_inv p ?s" by (rule lps_iter_inv [OF "1.prems" True len])
    from lps_iter_decreases [OF "1.prems" True len] len
    have "(?s, s) \<in> measures [\<lambda>s. length p - ls_i s, \<lambda>s. the (ls_length s)]"
      by auto
    from "1.IH" [OF this inv'] obtain s' where
      "lps_loop p ?s = Some s'" "lps_inv p s'" "ls_i s' = length p" by blast
    moreover have "lps_loop p s = lps_loop p ?s"
      by (subst lps_loop.simps) (simp add: True len)
    ultimately show ?thesis by simp
  next
    case False
    then have "lps_loop p s = Some s" by (subst lps_loop.simps) simp
    moreover have "ls_i s = length p" using False "1.prems" by (simp add: lps_inv_def)
    ultimately show ?thesis using "1.prems" by simp
  qed
qed

lemma computeLPS_nonempty:
  assumes "p \<noteq> []"
  shows "\<exists>lps steps. computeLPSWithSteps p = Some (lps, steps) \<and> table_ok p lps"
proof -
  from lps_loop_terminates [OF lps_inv_init [OF assms]] obtain s' where
    s': "lps_loop p (lps_init p) = Some s'" "lps_inv p s'" "ls_i s' = length p" by blast
  then have "table_ok p (ls_lps s')" by (simp add: table_ok_def lps_inv_def)
  with s' show ?thesis by (simp add: computeLPSWithSteps_def)
qed

lemma computeLPS_empty: "computeLPSWithSteps [] = Some ([], [LpsInit [], LpsComplete []])"
  by (simp add: computeLPSWithSteps_def lps_init_def lps_loop.simps)

lemma computeLPS_total: "\<exists>lps steps. computeLPSWithSteps p = Some (lps, steps) \<and> table_ok p lps"
proof (cases "p = []")
  case True
  then show ?thesis by (simp add: computeLPS_empty table_ok_def)
next
  case False
  then show ?thesis by (rule computeLPS_nonempty)
qed

lemma proper_border_pre_at:
  assumes "k < length p"
  shows "proper_border (take (Suc k) p) v \<longleftrightarrow> v \<le> k \<and> pre_at p p (Suc k) v"
proof -
  have len: "length (take (Suc k) p) = Suc k" using assms by simp
  show ?thesis
  proof (cases "v \<le> k")
    case False
    then show ?thesis by (simp add: proper_border_def len)
  next
    case True
    have "take v (take (Suc k) p) = drop (Suc k - v) (take (Suc k) p)
            \<longleftrightarrow> (\<forall>d<v. p ! d = p ! (Suc k - v + d))"
      using True assms by (auto simp: list_eq_iff_nth_eq)
    with True assms show ?thesis by (simp add: proper_border_def pre_at_def len)
  qed
qed

lemma longest_border_is_lps:
  assumes "k < length p"
  shows "longest_border (take (Suc k) p) v \<longleftrightarrow> is_lps p k v"
  using assms by (auto simp: longest_border_def is_lps_def proper_border_pre_at)

lemma occurs_prefix:
  assumes "occurs_at p t k" "k \<le> e" "e \<le> k + length p"
  shows "pre_at p t e (e - k)"
proof -
  from assms(1) have n: "k + length p \<le> length t"
    and a: "\<forall>d<length p. p ! d = t ! (k + d)"
    by (auto simp: occurs_at_def pre_at_def)
  have "p ! d = t ! (e - (e - k) + d)" if "d < e - k" for d
  proof -
    have "d < length p" using that assms(3) by simp
    with a have "p ! d = t ! (k + d)" by simp
    moreover have "e - (e - k) = k" using assms(2) by simp
    ultimately show ?thesis by simp
  qed
  with n assms(2,3) show ?thesis by (simp add: pre_at_def)
qed

lemma filter_upt_split:
  assumes "a \<le> b"
  shows "filter P [0..<b] = filter P [0..<a] @ filter P [a..<b]"
proof -
  have "[0..<a + (b - a)] = [0..<a] @ [a..<a + (b - a)]"
    by (rule upt_add_eq_append) simp
  with assms have "[0..<b] = [0..<a] @ [a..<b]" by simp
  then show ?thesis by simp
qed

lemma filter_upt_none:
  assumes "\<And>k. a \<le> k \<Longrightarrow> k < b \<Longrightarrow> \<not> P k"
  shows "filter P [a..<b] = []"
  using assms by (simp add: filter_empty_conv)

lemma filter_upt_skip:
  assumes "a \<le> b" and "\<And>k. a \<le> k \<Longrightarrow> k < b \<Longrightarrow> \<not> P k"
  shows "filter P [0..<b] = filter P [0..<a]"
proof -
  have "filter P [a..<b] = []" by (rule filter_upt_none) (rule assms(2))
  with filter_upt_split [OF assms(1), of P] show ?thesis by simp
qed

lemma kmp_inv_init: "p \<noteq> [] \<Longrightarrow> kmp_inv t p kmp_init"
  by (simp add: kmp_inv_def kmp_init_def pre_at_0)

text \<open>No occurrence starts strictly between the old and the new alignment.\<close>

lemma no_occurrence_between:
  assumes pj: "pre_at p t e j" and v: "is_lps p (j - 1) v" and j: "0 < j" "j \<le> length p"
    and k: "e - j < k" "k < e - v"
  shows "\<not> occurs_at p t k"
proof
  assume oc: "occurs_at p t k"
  from pj have je: "j \<le> e" by (simp add: pre_at_def)
  have "k \<le> e" using k by simp
  moreover have "e \<le> k + length p" using k j je by simp
  ultimately have pu: "pre_at p t e (e - k)" using occurs_prefix [OF oc] by simp
  have lt: "e - k < j" using k je by simp
  have gt: "v < e - k" using k by simp
  have "pre_at p p j (e - k)" using pre_at_overlap [OF pj pu] lt by simp
  then have "pre_at p p (Suc (j - 1)) (e - k)" using j by simp
  moreover have "e - k < Suc (j - 1)" using lt j by simp
  ultimately show False using is_lps_no_longer [OF v gt] by simp
qed

lemma no_occurrence_mismatch:
  assumes pj: "pre_at p t i j" and j: "j < length p" and i: "i < length t" and ne: "p ! j \<noteq> t ! i"
  shows "\<not> occurs_at p t (i - j)"
proof
  assume oc: "occurs_at p t (i - j)"
  from pj have ji: "j \<le> i" by (simp add: pre_at_def)
  have "pre_at p t (Suc i) (Suc i - (i - j))"
    by (rule occurs_prefix [OF oc]) (use ji j in simp_all)
  moreover have "Suc i - (i - j) = Suc j" using ji by simp
  ultimately have "pre_at p t (Suc i) (Suc j)" by simp
  with pre_at_shrink [of p t i j] ne show False by simp
qed

lemma kmp_iter_cases:
  assumes i: "ks_i s < length t" and j: "j < length p"
  shows "kmp_iter t p lps j s =
     (if p ! j = t ! ks_i s then
        (if Suc j = length p then
           \<lparr>ks_i = Suc (ks_i s), ks_j = array_get lps j,
            ks_matches = ks_matches s @ [int (ks_i s) - int j],
            ks_steps = ks_steps s @ [Match (ks_i s) j (int (ks_i s) - int j) (ks_matches s) (Suc (ks_comparisons s)),
               PatternFound (Suc (ks_i s)) (Suc j) (int (ks_i s) - int j) (ks_matches s @ [int (ks_i s) - int j]) (Suc (ks_comparisons s))],
            ks_comparisons = Suc (ks_comparisons s)\<rparr>
         else
           \<lparr>ks_i = Suc (ks_i s), ks_j = Some (Suc j), ks_matches = ks_matches s,
            ks_steps = ks_steps s @ [Match (ks_i s) j (int (ks_i s) - int j) (ks_matches s) (Suc (ks_comparisons s))],
            ks_comparisons = Suc (ks_comparisons s)\<rparr>)
      else if j \<noteq> 0 then
        \<lparr>ks_i = ks_i s, ks_j = array_get lps (j - 1), ks_matches = ks_matches s,
         ks_steps = ks_steps s @ [MismatchShift (ks_i s) j (int (ks_i s) - int j) (ks_matches s) (Suc (ks_comparisons s))
            (array_get lps (j - 1)) (map_option (\<lambda>v. int j - int v) (array_get lps (j - 1)))],
         ks_comparisons = Suc (ks_comparisons s)\<rparr>
      else
        \<lparr>ks_i = Suc (ks_i s), ks_j = Some 0, ks_matches = ks_matches s,
         ks_steps = ks_steps s @ [MismatchAdvance (ks_i s) 0 (int (ks_i s)) (ks_matches s) (Suc (ks_comparisons s))],
         ks_comparisons = Suc (ks_comparisons s)\<rparr>)"
proof -
  have "Suc j = length p \<Longrightarrow> length p - Suc 0 = j" by simp
  with assms show ?thesis by (simp add: kmp_iter_def Let_def char_at_def)
qed

lemma table_ok_get:
  assumes "table_ok p lps" "k < length p"
  shows "array_get lps k = Some (lps ! k)" "is_lps p k (lps ! k)"
  using assms by (simp_all add: table_ok_def array_get_def)

lemma kmp_inv_found:
  assumes inv: "kmp_inv t p s" and tb: "table_ok p lps" and i: "ks_i s < length t"
    and j: "ks_j s = Some j" and eq: "p ! j = t ! ks_i s" and last: "Suc j = length p"
  shows "kmp_inv t p \<lparr>ks_i = Suc (ks_i s), ks_j = Some (lps ! j),
                      ks_matches = ks_matches s @ [int (ks_i s) - int j],
                      ks_steps = st, ks_comparisons = c\<rparr>"
proof -
  let ?i = "ks_i s" and ?v = "lps ! j"
  from inv j have jm: "j < length p" and pj: "pre_at p t ?i j"
    and ms: "ks_matches s = map int (filter (occurs_at p t) [0..<?i - j])"
    by (auto simp: kmp_inv_def)
  from pj have ji: "j \<le> ?i" by (simp add: pre_at_def)
  from last have m: "length p = Suc j" by (rule sym)
  from jm have pne: "p \<noteq> []" by auto
  have v: "is_lps p j ?v" by (rule table_ok_get [OF tb jm])
  then have vj: "?v \<le> j" and vb: "pre_at p p (Suc j) ?v" by (simp_all add: is_lps_def)
  have full: "pre_at p t (Suc ?i) (Suc j)" by (rule pre_at_extend [OF pj i jm eq])
  have nv: "pre_at p t (Suc ?i) ?v" by (rule pre_at_border [OF full vb])
  have "?i - j + Suc j = Suc ?i" using ji by simp
  with full have oc: "occurs_at p t (?i - j)" by (simp add: occurs_at_def m)
  have none: "filter (occurs_at p t) [Suc (?i - j)..<Suc ?i - ?v] = []"
  proof (rule filter_upt_none)
    fix k assume k: "Suc (?i - j) \<le> k" "k < Suc ?i - ?v"
    have v': "is_lps p (Suc j - 1) ?v" using v by simp
    have a: "0 < Suc j" by simp
    have b: "Suc j \<le> length p" using jm by linarith
    have c: "Suc ?i - Suc j < k" using k(1) by linarith
    show "\<not> occurs_at p t k"
      by (rule no_occurrence_between [OF full v' a b c k(2)])
  qed
  have "Suc (?i - j) \<le> Suc ?i - ?v" using vj ji by simp
  from filter_upt_split [OF this]
  have "filter (occurs_at p t) [0..<Suc ?i - ?v] = filter (occurs_at p t) [0..<Suc (?i - j)]"
    by (simp add: none)
  also have "\<dots> = filter (occurs_at p t) [0..<?i - j] @ [?i - j]"
    using oc by simp
  finally have fl: "filter (occurs_at p t) [0..<Suc ?i - ?v] = filter (occurs_at p t) [0..<?i - j] @ [?i - j]" .
  have idiff: "int ?i - int j = int (?i - j)" using ji by simp
  have "ks_matches s @ [int ?i - int j] = map int (filter (occurs_at p t) [0..<Suc ?i - ?v])"
    by (simp only: ms fl idiff map_append list.map)
  moreover have "?v < length p" using vj jm by simp
  ultimately show ?thesis using nv by (simp add: kmp_inv_def)
qed

lemma kmp_inv_match:
  assumes inv: "kmp_inv t p s" and i: "ks_i s < length t"
    and j: "ks_j s = Some j" and eq: "p ! j = t ! ks_i s" and notlast: "Suc j \<noteq> length p"
  shows "kmp_inv t p \<lparr>ks_i = Suc (ks_i s), ks_j = Some (Suc j), ks_matches = ks_matches s,
                      ks_steps = st, ks_comparisons = c\<rparr>"
proof -
  let ?i = "ks_i s"
  from inv j have jm: "j < length p" and pj: "pre_at p t ?i j"
    and ms: "ks_matches s = map int (filter (occurs_at p t) [0..<?i - j])"
    by (auto simp: kmp_inv_def)
  have full: "pre_at p t (Suc ?i) (Suc j)" by (rule pre_at_extend [OF pj i jm eq])
  have "Suc j < length p" using jm notlast by simp
  with full ms show ?thesis by (simp add: kmp_inv_def)
qed

lemma kmp_inv_shift:
  assumes inv: "kmp_inv t p s" and tb: "table_ok p lps" and i: "ks_i s < length t"
    and j: "ks_j s = Some j" and ne: "p ! j \<noteq> t ! ks_i s" and nz: "j \<noteq> 0"
  shows "lps ! (j - 1) < j \<and>
         kmp_inv t p \<lparr>ks_i = ks_i s, ks_j = Some (lps ! (j - 1)), ks_matches = ks_matches s,
                      ks_steps = st, ks_comparisons = c\<rparr>"
proof -
  let ?i = "ks_i s" and ?v = "lps ! (j - 1)"
  from inv j have jm: "j < length p" and pj: "pre_at p t ?i j"
    and ms: "ks_matches s = map int (filter (occurs_at p t) [0..<?i - j])"
    by (auto simp: kmp_inv_def)
  from pj have ji: "j \<le> ?i" by (simp add: pre_at_def)
  have "j - 1 < length p" using jm by simp
  from table_ok_get(2) [OF tb this] have v: "is_lps p (j - 1) ?v" .
  then have "?v \<le> j - 1" and vb: "pre_at p p j ?v" using nz by (simp_all add: is_lps_def)
  then have vj: "?v < j" using nz by linarith
  have nv: "pre_at p t ?i ?v" by (rule pre_at_border [OF pj vb])
  have "filter (occurs_at p t) [0..<?i - ?v] = filter (occurs_at p t) [0..<?i - j]"
  proof (rule filter_upt_skip)
    show "?i - j \<le> ?i - ?v" using vj by simp
  next
    fix k assume k: "?i - j \<le> k" "k < ?i - ?v"
    show "\<not> occurs_at p t k"
    proof (cases "k = ?i - j")
      case True
      then show ?thesis using no_occurrence_mismatch [OF pj jm i ne] by simp
    next
      case False
      show ?thesis
        by (rule no_occurrence_between [OF pj v]) (use k False nz jm in simp_all)
    qed
  qed
  with ms nv vj jm show ?thesis by (simp add: kmp_inv_def)
qed

lemma kmp_inv_advance:
  assumes inv: "kmp_inv t p s" and i: "ks_i s < length t"
    and j: "ks_j s = Some 0" and ne: "p ! 0 \<noteq> t ! ks_i s"
  shows "kmp_inv t p \<lparr>ks_i = Suc (ks_i s), ks_j = Some 0, ks_matches = ks_matches s,
                      ks_steps = st, ks_comparisons = c\<rparr>"
proof -
  let ?i = "ks_i s"
  from inv j have jm: "0 < length p" and pj: "pre_at p t ?i 0"
    and ms: "ks_matches s = map int (filter (occurs_at p t) [0..<?i])"
    by (auto simp: kmp_inv_def)
  have "\<not> occurs_at p t ?i" using no_occurrence_mismatch [OF pj jm i ne] by simp
  with ms i jm show ?thesis by (simp add: kmp_inv_def pre_at_0)
qed

lemma kmp_iter_inv:
  assumes inv: "kmp_inv t p s" and tb: "table_ok p lps" and i: "ks_i s < length t"
    and j: "ks_j s = Some j"
  shows "kmp_inv t p (kmp_iter t p lps j s)"
proof -
  from inv j have jm: "j < length p" by (auto simp: kmp_inv_def)
  note c = kmp_iter_cases [OF i jm]
  show ?thesis
  proof (cases "p ! j = t ! ks_i s")
    case True
    show ?thesis
    proof (cases "Suc j = length p")
      case last: True
      from kmp_inv_found [OF inv tb i j True last] show ?thesis
        unfolding c using True last table_ok_get(1) [OF tb jm] by simp
    next
      case False
      from kmp_inv_match [OF inv i j True False] show ?thesis
        unfolding c using True False by simp
    qed
  next
    case False
    show ?thesis
    proof (cases "j = 0")
      case True
      with j False have "ks_j s = Some 0" "p ! 0 \<noteq> t ! ks_i s" by simp_all
      from kmp_inv_advance [OF inv i this] show ?thesis
        unfolding c using True False by simp
    next
      case nz: False
      have j1: "j - 1 < length p" using jm by simp
      from kmp_inv_shift [OF inv tb i j False nz] show ?thesis
        unfolding c using False nz table_ok_get(1) [OF tb j1] by simp
    qed
  qed
qed

lemma kmp_iter_decreases:
  assumes inv: "kmp_inv t p s" and tb: "table_ok p lps" and i: "ks_i s < length t"
    and j: "ks_j s = Some j"
  shows "length t - ks_i (kmp_iter t p lps j s) < length t - ks_i s \<or>
         ks_i (kmp_iter t p lps j s) = ks_i s \<and>
         (\<exists>j'. ks_j (kmp_iter t p lps j s) = Some j' \<and> j' < j)"
proof -
  from inv j have jm: "j < length p" by (auto simp: kmp_inv_def)
  note c = kmp_iter_cases [OF i jm]
  show ?thesis
  proof (cases "p ! j \<noteq> t ! ks_i s \<and> j \<noteq> 0")
    case True
    have "j - 1 < length p" using jm by simp
    from kmp_inv_shift [OF inv tb i j] True table_ok_get(1) [OF tb this]
    show ?thesis unfolding c by simp
  next
    case False
    with i show ?thesis unfolding c by auto
  qed
qed

lemma kmp_loop_terminates:
  assumes "kmp_inv t p s" and tb: "table_ok p lps"
  shows "\<exists>s'. kmp_loop t p lps s = Some s' \<and> kmp_inv t p s' \<and> ks_i s' = length t"
  using assms(1)
proof (induction s rule: wf_induct_rule [OF wf_measures [of "[\<lambda>s. length t - ks_i s, \<lambda>s. the (ks_j s)]"]])
  case (1 s)
  from "1.prems" obtain j where j: "ks_j s = Some j" and pj: "pre_at p t (ks_i s) j"
    by (auto simp: kmp_inv_def)
  show ?case
  proof (cases "ks_i s < length t")
    case True
    let ?s = "kmp_iter t p lps j s"
    have inv': "kmp_inv t p ?s" by (rule kmp_iter_inv [OF "1.prems" tb True j])
    from kmp_iter_decreases [OF "1.prems" tb True j] j
    have "(?s, s) \<in> measures [\<lambda>s. length t - ks_i s, \<lambda>s. the (ks_j s)]"
      by auto
    from "1.IH" [OF this inv'] obtain s' where
      "kmp_loop t p lps ?s = Some s'" "kmp_inv t p s'" "ks_i s' = length t" by blast
    moreover have "kmp_loop t p lps s = kmp_loop t p lps ?s"
      by (subst kmp_loop.simps) (simp add: True j)
    ultimately show ?thesis by simp
  next
    case False
    then have "kmp_loop t p lps s = Some s" by (subst kmp_loop.simps) simp
    moreover have "ks_i s = length t" using False pj by (simp add: pre_at_def)
    ultimately show ?thesis using "1.prems" by simp
  qed
qed

lemma occurs_at_take:
  "occurs_at p t k \<longleftrightarrow> k + length p \<le> length t \<and> take (length p) (drop k t) = p"
  unfolding occurs_at_def by (rule pre_at_take)

lemma kmp_inv_final:
  assumes inv: "kmp_inv t p s" and i: "ks_i s = length t"
  shows "ks_matches s = bruteForce t p"
proof -
  let ?n = "length t" and ?m = "length p"
  from inv i obtain j where jm: "j < ?m"
    and ms: "ks_matches s = map int (filter (occurs_at p t) [0..<?n - j])"
    by (auto simp: kmp_inv_def)
  have le: "Suc ?n - ?m \<le> ?n - j" using jm by simp
  have none: "filter (occurs_at p t) [Suc ?n - ?m..<?n - j] = []"
    by (rule filter_upt_none) (auto simp: occurs_at_take)
  have "filter (occurs_at p t) [0..<?n - j] = filter (occurs_at p t) [0..<Suc ?n - ?m]"
    using filter_upt_split [OF le, of "occurs_at p t"] by (simp add: none)
  also have "\<dots> = filter (\<lambda>i. take ?m (drop i t) = p) [0..<Suc ?n - ?m]"
    by (rule filter_cong) (auto simp: occurs_at_take)
  finally show ?thesis using ms by (simp add: bruteForce_def)
qed

lemma kmpSearch_correct:
  assumes "p \<noteq> []" and tb: "table_ok p lps"
  shows "\<exists>r. kmpSearchWithSteps t p lps = Some r \<and> matches r = bruteForce t p"
proof -
  from kmp_loop_terminates [OF kmp_inv_init [OF assms(1)] tb] obtain s' where
    s': "kmp_loop t p lps kmp_init = Some s'" "kmp_inv t p s'" "ks_i s' = length t" by blast
  from kmp_inv_final [OF s'(2,3)] s'(1) show ?thesis
    by (simp add: kmpSearchWithSteps_def)
qed

lemma text_indices_append: "text_indices (xs @ ys) = text_indices xs @ text_indices ys"
  by (simp add: text_indices_def map_filter_def)

lemma kmp_iter_i_mono: "ks_i s \<le> ks_i (kmp_iter t p lps j s)"
  by (simp add: kmp_iter_def Let_def)

lemma kmp_iter_shift:
  assumes "char_at p j \<noteq> char_at t (ks_i s)" "j \<noteq> 0"
  shows "ks_i (kmp_iter t p lps j s) = ks_i s \<and> ks_j (kmp_iter t p lps j s) = array_get lps (j - 1)"
  using assms by (simp add: kmp_iter_def Let_def)

lemma kmp_iter_steps:
  "\<exists>new. ks_steps (kmp_iter t p lps j s) = ks_steps s @ new \<and>
     sorted (text_indices new) \<and>
     (\<forall>x\<in>set (text_indices new). ks_i s \<le> x \<and> x \<le> ks_i (kmp_iter t p lps j s))"
  by (auto simp: kmp_iter_def Let_def text_indices_def map_filter_def)

lemma kmp_iter_trace:
  assumes "trace_inv s"
  shows "trace_inv (kmp_iter t p lps j s)"
proof -
  from kmp_iter_steps [of t p lps j s] obtain new where
    n: "ks_steps (kmp_iter t p lps j s) = ks_steps s @ new" "sorted (text_indices new)"
       "\<forall>x\<in>set (text_indices new). ks_i s \<le> x \<and> x \<le> ks_i (kmp_iter t p lps j s)"
    by blast
  have m: "ks_i s \<le> ks_i (kmp_iter t p lps j s)" by (rule kmp_iter_i_mono)
  from assms n m show ?thesis
    unfolding trace_inv_def n(1) text_indices_append
    by (force simp: sorted_append)
qed

lemma kmp_loop_partial:
  assumes "kmp_loop t p lps s = Some s'"
  shows "ks_i s \<le> ks_i s' \<and> (trace_inv s \<longrightarrow> trace_inv s')"
proof (rule kmp_loop.raw_induct [OF _ assms])
  fix loop :: "js_string \<Rightarrow> js_string \<Rightarrow> nat list \<Rightarrow> kmp_state \<Rightarrow> kmp_state option"
    and t p lps s s'
  assume IH: "\<And>t p lps s y. loop t p lps s = Some y \<Longrightarrow>
                 ks_i s \<le> ks_i y \<and> (trace_inv s \<longrightarrow> trace_inv y)"
    and eq: "(if ks_i s < length t
              then case ks_j s of None \<Rightarrow> None
                   | Some j \<Rightarrow> loop t p lps (kmp_iter t p lps j s)
              else Some s) = Some s'"
  show "ks_i s \<le> ks_i s' \<and> (trace_inv s \<longrightarrow> trace_inv s')"
  proof (cases "ks_i s < length t")
    case True
    with eq obtain j where j: "ks_j s = Some j"
      and r: "loop t p lps (kmp_iter t p lps j s) = Some s'"
      by (cases "ks_j s") auto
    from IH [OF r] have a: "ks_i (kmp_iter t p lps j s) \<le> ks_i s'"
      and b: "trace_inv (kmp_iter t p lps j s) \<longrightarrow> trace_inv s'" by blast+
    from a kmp_iter_i_mono [of s t p lps j] have "ks_i s \<le> ks_i s'" by (rule order_trans [rotated])
    moreover from b kmp_iter_trace [of s t p lps j] have "trace_inv s \<longrightarrow> trace_inv s'" by blast
    ultimately show ?thesis by blast
  next
    case False
    with eq show ?thesis by simp
  qed
qed

lemma kmp_loop_empty_pattern:
  assumes "ks_j s = Some 0"
  shows "\<exists>s'. kmp_loop t [] lps s = Some s'"
  using assms
proof (induction "length t - ks_i s" arbitrary: s)
  case 0
  then have "\<not> ks_i s < length t" by simp
  then show ?case by (subst kmp_loop.simps) simp
next
  case (Suc d)
  then have i: "ks_i s < length t" by simp
  let ?s = "kmp_iter t [] lps 0 s"
  have "ks_i ?s = Suc (ks_i s)" "ks_j ?s = Some 0"
    using i by (simp_all add: kmp_iter_def Let_def char_at_def)
  with Suc have "\<exists>s'. kmp_loop t [] lps ?s = Some s'" by simp
  moreover have "kmp_loop t [] lps s = kmp_loop t [] lps ?s"
    by (subst kmp_loop.simps) (simp add: i Suc.prems)
  ultimately show ?case by simp
qed

lemma kmpSearch_total:
  assumes "table_ok p lps"
  shows "\<exists>r. kmpSearchWithSteps t p lps = Some r"
proof (cases "p = []")
  case True
  have "ks_j kmp_init = Some 0" by (simp add: kmp_init_def)
  from kmp_loop_empty_pattern [OF this, of t lps] True show ?thesis
    by (auto simp: kmpSearchWithSteps_def)
next
  case False
  from kmpSearch_correct [OF False assms, of t] show ?thesis by blast
qed

lemma lps_iter_length: "length (ls_lps (lps_iter p len s)) = length (ls_lps s)"
  by (simp add: lps_iter_def Let_def)

lemma set_bruteForce:
  "set (bruteForce t p) =
     int ` {i. i + length p \<le> length t \<and> take (length p) (drop i t) = p}"
proof -
  have "{i. i < Suc (length t) - length p \<and> take (length p) (drop i t) = p} =
        {i. i + length p \<le> length t \<and> take (length p) (drop i t) = p}"
    by auto
  then show ?thesis by (simp add: bruteForce_def)
qed

text \<open>
  C1. For a non-empty text and a non-empty pattern no longer than the text, the scanner
  run on the table of the builder returns exactly the offsets of the brute-force scan:
  all \<open>i\<close> with \<open>text[i..i+m-1] = pattern\<close>, in increasing order.
\<close>

theorem kmp_matches_are_brute_force:
  assumes "text \<noteq> []" and "pattern \<noteq> []" and "length pattern \<le> length text"
  shows "\<exists>lps steps r.
           computeLPSWithSteps pattern = Some (lps, steps) \<and>
           kmpSearchWithSteps text pattern lps = Some r \<and>
           matches r = bruteForce text pattern \<and>
           set (matches r) =
             int ` {i. i + length pattern \<le> length text \<and>
                       take (length pattern) (drop i text) = pattern}"
proof -
  from computeLPS_nonempty [OF assms(2)] obtain lps steps where
    l: "computeLPSWithSteps pattern = Some (lps, steps)" "table_ok pattern lps" by blast
  from kmpSearch_correct [OF assms(2) l(2), of "text"] obtain r where
    r: "kmpSearchWithSteps text pattern lps = Some r" "matches r = bruteForce text pattern"
    by blast
  from l(1) r show ?thesis by (simp add: set_bruteForce)
qed

theorem kmp_matches_are_brute_force_witness:
  "str ''AABAACAADAABAABA'' \<noteq> [] \<and> str ''AABA'' \<noteq> [] \<and>
   length (str ''AABA'') \<le> length (str ''AABAACAADAABAABA'') \<and>
   (\<exists>lps steps r.
      computeLPSWithSteps (str ''AABA'') = Some (lps, steps) \<and>
      kmpSearchWithSteps (str ''AABAACAADAABAABA'') (str ''AABA'') lps = Some r \<and>
      matches r = bruteForce (str ''AABAACAADAABAABA'') (str ''AABA'') \<and>
      set (matches r) =
        int ` {i. i + length (str ''AABA'') \<le> length (str ''AABAACAADAABAABA'') \<and>
                  take (length (str ''AABA'')) (drop i (str ''AABAACAADAABAABA'')) = str ''AABA''}) \<and>
   bruteForce (str ''AABAACAADAABAABA'') (str ''AABA'') = [0, 9, 12]"
proof -
  have a: "str ''AABAACAADAABAABA'' \<noteq> []" and b: "str ''AABA'' \<noteq> []"
    and c: "length (str ''AABA'') \<le> length (str ''AABAACAADAABAABA'')"
    by (simp_all add: str_def)
  have d: "bruteForce (str ''AABAACAADAABAABA'') (str ''AABA'') = [0, 9, 12]"
    by code_simp
  from kmp_matches_are_brute_force [OF a b c] a b c d show ?thesis by blast
qed

text \<open>
  C3. For a non-empty pattern the builder returns a table with one entry per position,
  \<open>table[0] = 0\<close>, \<open>table[i] \<le> i\<close>, and \<open>table[i]\<close> the length of the longest proper
  prefix of \<open>pattern[0..i]\<close> that is also a suffix of it.
\<close>

theorem lps_table_is_longest_border:
  assumes "pattern \<noteq> []"
  shows "\<exists>table steps.
           computeLPSWithSteps pattern = Some (table, steps) \<and>
           length table = length pattern \<and> table ! 0 = 0 \<and>
           (\<forall>i<length pattern.
              table ! i \<le> i \<and> longest_border (take (Suc i) pattern) (table ! i))"
proof -
  from computeLPS_nonempty [OF assms] obtain lps steps where
    l: "computeLPSWithSteps pattern = Some (lps, steps)" and ok: "table_ok pattern lps" by blast
  from ok have len: "length lps = length pattern"
    and tb: "\<forall>k<length pattern. is_lps pattern k (lps ! k)"
    by (simp_all add: table_ok_def)
  have each: "lps ! i \<le> i \<and> longest_border (take (Suc i) pattern) (lps ! i)"
    if "i < length pattern" for i
  proof -
    from tb that have "is_lps pattern i (lps ! i)" by blast
    then show ?thesis using that by (simp add: longest_border_is_lps is_lps_def)
  qed
  have "0 < length pattern" using assms by simp
  from each [OF this] have "lps ! 0 = 0" by simp
  with l len each show ?thesis by blast
qed

theorem lps_table_is_longest_border_witness:
  "str ''ABABCABAB'' \<noteq> [] \<and>
   (\<exists>table steps.
      computeLPSWithSteps (str ''ABABCABAB'') = Some (table, steps) \<and>
      length table = length (str ''ABABCABAB'') \<and> table ! 0 = 0 \<and>
      (\<forall>i<length (str ''ABABCABAB'').
         table ! i \<le> i \<and> longest_border (take (Suc i) (str ''ABABCABAB'')) (table ! i))) \<and>
   map_option fst (computeLPSWithSteps (str ''ABABCABAB'')) = Some [0, 0, 1, 2, 0, 1, 2, 3, 4]"
proof -
  have a: "str ''ABABCABAB'' \<noteq> []" by (simp add: str_def)
  have b: "map_option fst (computeLPSWithSteps (str ''ABABCABAB'')) = Some [0, 0, 1, 2, 0, 1, 2, 3, 4]"
    by code_simp
  from lps_table_is_longest_border [OF a] a b show ?thesis by blast
qed

text \<open>
  C6, as the code has it. The builder does not fail on the empty pattern.
\<close>

theorem lps_builder_accepts_empty_pattern:
  "computeLPSWithSteps [] = Some ([], [LpsInit [], LpsComplete []])"
  by (simp add: computeLPSWithSteps_def lps_init_def lps_loop.simps)

text \<open>
  C6 amended. The empty pattern is rejected by \<open>kmpAlgorithm\<close>, which throws
  \<open>Both text and pattern are required\<close> before the builder is called; the builder itself
  has no failure: it returns a table for every pattern.
\<close>

theorem empty_pattern_rejected_by_kmpAlgorithm:
  "kmpAlgorithm text [] = Some (Inl (Error ''Both text and pattern are required'')) \<and>
   (\<exists>table steps. computeLPSWithSteps pattern = Some (table, steps))"
proof -
  from computeLPS_total [of pattern] have "\<exists>table steps. computeLPSWithSteps pattern = Some (table, steps)"
    by blast
  then show ?thesis by (simp add: kmpAlgorithm_def)
qed

text \<open>
  C8. No iteration of the scanner's loop decreases the text index \<open>i\<close>; on a mismatch with
  \<open>j \<noteq> 0\<close> the iteration leaves \<open>i\<close> as it is and sets \<open>j\<close> to \<open>lps[j - 1]\<close>; and along
  the steps of a finished scan, whatever the table, the \<open>textIndex\<close> fields never decrease.
\<close>

theorem kmp_text_index_never_decreases:
  "ks_i s \<le> ks_i (kmp_iter text pattern lps j s) \<and>
   (char_at pattern j \<noteq> char_at text (ks_i s) \<and> j \<noteq> 0 \<longrightarrow>
      ks_i (kmp_iter text pattern lps j s) = ks_i s \<and>
      ks_j (kmp_iter text pattern lps j s) = array_get lps (j - 1)) \<and>
   (kmpSearchWithSteps text pattern lps = Some r \<longrightarrow> sorted (text_indices (matchingSteps r)))"
proof -
  have "sorted (text_indices (matchingSteps r))" if r: "kmpSearchWithSteps text pattern lps = Some r"
  proof -
    from r obtain s' where s': "kmp_loop text pattern lps kmp_init = Some s'"
      and m: "matchingSteps r = ks_steps s' @
                [SearchComplete (ks_matches s') (ks_comparisons s') (length (ks_matches s'))]"
      by (auto simp: kmpSearchWithSteps_def split: option.splits)
    have "trace_inv kmp_init"
      by (simp add: trace_inv_def kmp_init_def text_indices_def map_filter_def)
    with kmp_loop_partial [OF s'] have "trace_inv s'" by blast
    then show ?thesis
      by (simp add: m trace_inv_def text_indices_append) (simp add: text_indices_def map_filter_def)
  qed
  with kmp_iter_i_mono [of s "text" pattern lps j] kmp_iter_shift [of pattern j "text" s lps]
  show ?thesis by blast
qed

theorem kmp_text_index_never_decreases_witness:
  "char_at (str ''ABABC'') 4 \<noteq> char_at (str ''ABABD'') 4 \<and> (4::nat) \<noteq> 0 \<and>
   ks_i (kmp_iter (str ''ABABD'') (str ''ABABC'') [0, 0, 1, 2, 0] 4
           \<lparr>ks_i = 4, ks_j = Some 4, ks_matches = [], ks_steps = [], ks_comparisons = 4\<rparr>) = 4 \<and>
   ks_j (kmp_iter (str ''ABABD'') (str ''ABABC'') [0, 0, 1, 2, 0] 4
           \<lparr>ks_i = 4, ks_j = Some 4, ks_matches = [], ks_steps = [], ks_comparisons = 4\<rparr>) = Some 2 \<and>
   (\<exists>r. kmpSearchWithSteps (str ''ABABD'') (str ''ABABC'') [0, 0, 1, 2, 0] = Some r \<and>
        sorted (text_indices (matchingSteps r)))"
proof -
  let ?s = "\<lparr>ks_i = 4, ks_j = Some 4, ks_matches = [], ks_steps = [], ks_comparisons = 4\<rparr>"
  let ?r = "the (kmpSearchWithSteps (str ''ABABD'') (str ''ABABC'') [0, 0, 1, 2, 0])"
  have a: "char_at (str ''ABABC'') 4 \<noteq> char_at (str ''ABABD'') (ks_i ?s)"
    by (simp add: str_def char_at_def)
  have b: "(4::nat) \<noteq> 0" by simp
  have c: "array_get [0, 0, 1, 2, 0] (4 - 1) = Some 2" by (simp add: array_get_def)
  have d: "kmpSearchWithSteps (str ''ABABD'') (str ''ABABC'') [0, 0, 1, 2, 0] = Some ?r"
    by code_simp
  note t = kmp_text_index_never_decreases [of ?s "str ''ABABD''" "str ''ABABC''" "[0, 0, 1, 2, 0]" 4 ?r]
  from t a b have e: "ks_i (kmp_iter (str ''ABABD'') (str ''ABABC'') [0, 0, 1, 2, 0] 4 ?s) = ks_i ?s"
    and f: "ks_j (kmp_iter (str ''ABABD'') (str ''ABABC'') [0, 0, 1, 2, 0] 4 ?s) =
            array_get [0, 0, 1, 2, 0] (4 - 1)"
    by blast+
  from t d have g: "sorted (text_indices (matchingSteps ?r))" by blast
  have h: "ks_i ?s = 4" by simp
  from a have a': "char_at (str ''ABABC'') 4 \<noteq> char_at (str ''ABABD'') 4" by simp
  from d g have i: "\<exists>r. kmpSearchWithSteps (str ''ABABD'') (str ''ABABC'') [0, 0, 1, 2, 0] = Some r \<and>
        sorted (text_indices (matchingSteps r))" by blast
  from e f c h have "ks_i (kmp_iter (str ''ABABD'') (str ''ABABC'') [0, 0, 1, 2, 0] 4 ?s) = 4"
    and "ks_j (kmp_iter (str ''ABABD'') (str ''ABABC'') [0, 0, 1, 2, 0] 4 ?s) = Some 2"
    by simp_all
  with a' b i show ?thesis by blast
qed

lemma lps_iter_progress:
  assumes inv: "lps_inv p s" and i: "ls_i s < length p" and len: "ls_length s = Some len"
  shows "\<exists>len'. ls_length (lps_iter p len s) = Some len' \<and>
           (ls_i (lps_iter p len s) = ls_i s + 1 \<or>
            ls_i (lps_iter p len s) = ls_i s \<and> len' < len)"
proof -
  from inv len have l: "len < ls_i s" by (auto simp: lps_inv_def)
  note c = lps_iter_cases [OF i l]
  show ?thesis
  proof (cases "p ! ls_i s \<noteq> p ! len \<and> len \<noteq> 0")
    case True
    with lps_inv_fallback [OF inv i len] show ?thesis by (simp add: c)
  next
    case False
    then show ?thesis by (auto simp: c)
  qed
qed

lemma kmp_iter_progress:
  assumes inv: "kmp_inv t p s" and tb: "table_ok p lps" and i: "ks_i s < length t"
    and j: "ks_j s = Some j"
  shows "ks_i (kmp_iter t p lps j s) = ks_i s + 1 \<or>
         ks_i (kmp_iter t p lps j s) = ks_i s \<and>
         (\<exists>j'. ks_j (kmp_iter t p lps j s) = Some j' \<and> j' < j)"
proof -
  from inv j have jm: "j < length p" by (auto simp: kmp_inv_def)
  note c = kmp_iter_cases [OF i jm]
  show ?thesis
  proof (cases "p ! j \<noteq> t ! ks_i s \<and> j \<noteq> 0")
    case True
    have "j - 1 < length p" using jm by simp
    from kmp_inv_shift [OF inv tb i j] True table_ok_get(1) [OF tb this]
    show ?thesis unfolding c by simp
  next
    case False
    then show ?thesis unfolding c by auto
  qed
qed

text \<open>
  C10. The loop of the builder leaves with a table for every pattern, and the loop of the
  scanner, run on that table, leaves with a result for every text: both functions return,
  and so does \<open>kmpAlgorithm\<close>. On the states the loops reach (\<open>lps_inv\<close>, and \<open>kmp_inv\<close>
  with a finished table) an iteration of the builder either advances \<open>i\<close> or keeps \<open>i\<close>
  and strictly decreases \<open>length\<close>, and an iteration of the scanner either advances \<open>i\<close>
  or keeps \<open>i\<close> and strictly decreases \<open>j\<close>: the measures \<open>(m - i, length)\<close> and
  \<open>(n - i, j)\<close> decrease in the lexicographic order.
\<close>

theorem kmp_loops_terminate:
  "(\<exists>table steps r res.
     computeLPSWithSteps pattern = Some (table, steps) \<and>
     kmpSearchWithSteps text pattern table = Some r \<and>
     kmpAlgorithm text pattern = Some res) \<and>
   (lps_inv pattern s \<and> ls_i s < length pattern \<and> ls_length s = Some len \<longrightarrow>
      (\<exists>len'. ls_length (lps_iter pattern len s) = Some len' \<and>
         (ls_i (lps_iter pattern len s) = ls_i s + 1 \<or>
          ls_i (lps_iter pattern len s) = ls_i s \<and> len' < len))) \<and>
   (kmp_inv text pattern ks \<and> table_ok pattern lps \<and> ks_i ks < length text \<and> ks_j ks = Some j \<longrightarrow>
      ks_i (kmp_iter text pattern lps j ks) = ks_i ks + 1 \<or>
      ks_i (kmp_iter text pattern lps j ks) = ks_i ks \<and>
      (\<exists>j'. ks_j (kmp_iter text pattern lps j ks) = Some j' \<and> j' < j))"
proof -
  from computeLPS_total [of pattern] obtain tbl steps where
    l: "computeLPSWithSteps pattern = Some (tbl, steps)" "table_ok pattern tbl" by blast
  from kmpSearch_total [OF l(2), of "text"] obtain r where
    r: "kmpSearchWithSteps text pattern tbl = Some r" by blast
  from l(1) r have 1: "\<exists>table steps r res.
     computeLPSWithSteps pattern = Some (table, steps) \<and>
     kmpSearchWithSteps text pattern table = Some r \<and>
     kmpAlgorithm text pattern = Some res" by (simp add: kmpAlgorithm_def)
  from 1 lps_iter_progress [of pattern s len] kmp_iter_progress [of "text" pattern ks lps j]
  show ?thesis by blast
qed

theorem kmp_loops_terminate_witness:
  "lps_inv (str ''AAB'') (lps_init (str ''AAB'')) \<and>
   ls_i (lps_init (str ''AAB'')) < length (str ''AAB'') \<and>
   ls_length (lps_init (str ''AAB'')) = Some 0 \<and>
   kmp_inv (str ''AAAB'') (str ''AAB'') kmp_init \<and> table_ok (str ''AAB'') [0, 1, 0] \<and>
   ks_i kmp_init < length (str ''AAAB'') \<and> ks_j kmp_init = Some 0 \<and>
   (\<exists>len'. ls_length (lps_iter (str ''AAB'') 0 (lps_init (str ''AAB''))) = Some len' \<and>
      (ls_i (lps_iter (str ''AAB'') 0 (lps_init (str ''AAB''))) = ls_i (lps_init (str ''AAB'')) + 1 \<or>
       ls_i (lps_iter (str ''AAB'') 0 (lps_init (str ''AAB''))) = ls_i (lps_init (str ''AAB'')) \<and>
       len' < 0)) \<and>
   (ks_i (kmp_iter (str ''AAAB'') (str ''AAB'') [0, 1, 0] 0 kmp_init) = ks_i kmp_init + 1 \<or>
    ks_i (kmp_iter (str ''AAAB'') (str ''AAB'') [0, 1, 0] 0 kmp_init) = ks_i kmp_init \<and>
    (\<exists>j'. ks_j (kmp_iter (str ''AAAB'') (str ''AAB'') [0, 1, 0] 0 kmp_init) = Some j' \<and> j' < 0)) \<and>
   (\<exists>table steps r res.
     computeLPSWithSteps (str ''AAB'') = Some (table, steps) \<and>
     kmpSearchWithSteps (str ''AAAB'') (str ''AAB'') table = Some r \<and>
     kmpAlgorithm (str ''AAAB'') (str ''AAB'') = Some res)"
proof -
  have ne: "str ''AAB'' \<noteq> []" by (simp add: str_def)
  have a: "lps_inv (str ''AAB'') (lps_init (str ''AAB''))" by (rule lps_inv_init [OF ne])
  have b: "ls_i (lps_init (str ''AAB'')) < length (str ''AAB'')"
    "ls_length (lps_init (str ''AAB'')) = Some 0"
    by (simp_all add: lps_init_def str_def Let_def)
  have c: "kmp_inv (str ''AAAB'') (str ''AAB'') kmp_init" by (rule kmp_inv_init [OF ne])
  have tbl: "computeLPSWithSteps (str ''AAB'') =
               Some ([0, 1, 0], snd (the (computeLPSWithSteps (str ''AAB''))))"
    by code_simp
  from computeLPS_nonempty [OF ne] tbl have d: "table_ok (str ''AAB'') [0, 1, 0]" by auto
  have e: "ks_i kmp_init < length (str ''AAAB'')" "ks_j kmp_init = Some 0"
    by (simp_all add: kmp_init_def str_def)
  note t = kmp_loops_terminate [of "str ''AAB''" "str ''AAAB''" "lps_init (str ''AAB'')" 0
      kmp_init "[0, 1, 0]" 0]
  from t have h: "\<exists>table steps r res.
     computeLPSWithSteps (str ''AAB'') = Some (table, steps) \<and>
     kmpSearchWithSteps (str ''AAAB'') (str ''AAB'') table = Some r \<and>
     kmpAlgorithm (str ''AAAB'') (str ''AAB'') = Some res" by blast
  from t a b have f: "\<exists>len'. ls_length (lps_iter (str ''AAB'') 0 (lps_init (str ''AAB''))) = Some len' \<and>
      (ls_i (lps_iter (str ''AAB'') 0 (lps_init (str ''AAB''))) = ls_i (lps_init (str ''AAB'')) + 1 \<or>
       ls_i (lps_iter (str ''AAB'') 0 (lps_init (str ''AAB''))) = ls_i (lps_init (str ''AAB'')) \<and>
       len' < 0)" by blast
  from t c d e have g: "ks_i (kmp_iter (str ''AAAB'') (str ''AAB'') [0, 1, 0] 0 kmp_init) = ks_i kmp_init + 1 \<or>
    ks_i (kmp_iter (str ''AAAB'') (str ''AAB'') [0, 1, 0] 0 kmp_init) = ks_i kmp_init \<and>
    (\<exists>j'. ks_j (kmp_iter (str ''AAAB'') (str ''AAB'') [0, 1, 0] 0 kmp_init) = Some j' \<and> j' < 0)"
    by blast
  from a b c d e f g h show ?thesis by blast
qed

section \<open>Lemmas: hashing and the rolling-hash scanner\<close>

lemma poly_hash_Nil: "poly_hash b [] = 0"
  by (simp add: poly_hash_def)

lemma poly_hash_snoc: "poly_hash b (s @ [c]) = poly_hash b s * b + uint c"
proof -
  have "(\<Sum>k<length s. uint ((s @ [c]) ! k) * b ^ (length s - k)) =
        (\<Sum>k<length s. (uint (s ! k) * b ^ (length s - 1 - k)) * b)"
  proof (rule sum.cong)
    fix k assume "k \<in> {..<length s}"
    then have k: "k < length s" by simp
    then have "length s - k = Suc (length s - 1 - k)" by simp
    then show "uint ((s @ [c]) ! k) * b ^ (length s - k) =
               (uint (s ! k) * b ^ (length s - 1 - k)) * b"
      using k by (simp add: nth_append)
  qed simp
  then show ?thesis
    by (simp add: poly_hash_def sum_distrib_right)
qed

lemma poly_hash_Cons: "poly_hash b (c # s) = uint c * b ^ length s + poly_hash b s"
proof (induction s rule: rev_induct)
  case Nil
  show ?case using poly_hash_snoc [of b "[]" c] by (simp add: poly_hash_Nil)
next
  case (snoc x xs)
  have "poly_hash b (c # xs @ [x]) = poly_hash b (c # xs) * b + uint x"
    using poly_hash_snoc [of b "c # xs" x] by simp
  also have "\<dots> = (uint c * b ^ length xs + poly_hash b xs) * b + uint x"
    by (simp add: snoc.IH)
  also have "\<dots> = uint c * b ^ length (xs @ [x]) + poly_hash b (xs @ [x])"
    by (simp add: poly_hash_snoc algebra_simps)
  finally show ?case .
qed

lemma uint_code_bound: "0 \<le> uint (c :: 16 word) \<and> uint c \<le> 65535"
proof -
  have "uint c < 2 ^ LENGTH(16)" by (rule uint_lt2p)
  then show ?thesis by simp
qed

lemma to_double_exact:
  assumes "\<bar>x\<bar> < 2 ^ 53"
  shows "to_double x = Fin x"
proof -
  have r: "round_even \<bar>x\<bar> = \<bar>x\<bar>" using assms by (simp add: round_even_def)
  have "(2::int) ^ 53 \<le> 2 ^ 1024" by (rule power_increasing) simp_all
  with assms have "\<not> 2 ^ 1024 \<le> \<bar>x\<bar>" by linarith
  with r show ?thesis by (simp add: to_double_def Let_def)
qed

lemma js_rem_nonneg:
  assumes "0 \<le> a" "0 < q"
  shows "js_rem (Fin a) (Fin q) = Fin (a mod q)"
proof (cases "a = 0")
  case True then show ?thesis using assms by simp
next
  case False
  with assms have "sgn a = 1" by simp
  with assms show ?thesis by simp
qed

lemma js_rem_range:
  assumes "0 < q"
  shows "\<exists>r. js_rem (Fin a) (Fin q) = Fin r \<and> - q < r \<and> r < q \<and> (r + q) mod q = a mod q"
proof -
  let ?r = "sgn a * (\<bar>a\<bar> mod q)"
  have q: "\<bar>q\<bar> = q" using assms by simp
  have m: "0 \<le> \<bar>a\<bar> mod q" "\<bar>a\<bar> mod q < q" using assms by simp_all
  have 1: "js_rem (Fin a) (Fin q) = Fin ?r" using assms by (simp add: q)
  have 2: "- q < ?r \<and> ?r < q"
  proof (cases "0 \<le> a")
    case True
    then have r: "?r = sgn a * (a mod q)" by (simp add: q)
    have am: "0 \<le> a mod q" "a mod q < q" using assms by simp_all
    show ?thesis
    proof (cases "a = 0")
      case True
      with assms show ?thesis by simp
    next
      case False
      with \<open>0 \<le> a\<close> have "sgn a = 1" by simp
      with r have "?r = a mod q" by simp
      with am assms show ?thesis by linarith
    qed
  next
    case False
    then have "sgn a = - 1" by simp
    then have "?r = - (\<bar>a\<bar> mod q)" by (simp add: q)
    with m assms show ?thesis by linarith
  qed
  have 3: "?r mod q = a mod q"
  proof (cases "0 \<le> a")
    case True
    show ?thesis
    proof (cases "a = 0")
      case True then show ?thesis by simp
    next
      case False
      with True have "sgn a = 1" by simp
      with True show ?thesis by (simp add: q)
    qed
  next
    case False
    then have s: "sgn a = - 1" and ab: "\<bar>a\<bar> = - a" by simp_all
    have "?r = - ((- a) mod q)" by (simp add: s ab q)
    also have "\<dots> mod q = (- (- a)) mod q" by (rule mod_minus_eq)
    finally show ?thesis by simp
  qed
  have "(?r + q) mod q = ?r mod q" by simp
  with 1 2 3 show ?thesis by simp
qed

lemma mul_bound:
  assumes "0 \<le> h" "h \<le> q" "0 < b" "b * q < (B::int)"
  shows "\<bar>h * b\<bar> < B"
proof -
  have "h * b \<le> q * b" using assms by (simp add: mult_right_mono)
  moreover have "0 \<le> h * b" using assms by simp
  moreover have "q * b = b * q" by simp
  ultimately show ?thesis using assms(4) by linarith
qed

lemma hash_update_exact:
  assumes b: "0 < b" and q: "0 < q" and safe: "b * q + 65535 < 2 ^ 53"
    and h: "0 \<le> h" "h < q" and k: "k < length s"
  shows "hash_update s (Fin b) (Fin q) k (Fin h) = Fin ((h * b + uint (s ! k)) mod q)"
proof -
  let ?c = "uint (s ! k)"
  have c: "0 \<le> ?c" "?c \<le> 65535" using uint_code_bound [of "s ! k"] by simp_all
  have hb: "0 \<le> h * b" "h * b \<le> q * b" using h b by (simp_all add: mult_right_mono)
  have "\<bar>h * b\<bar> < 2 ^ 53" using hb safe by (simp add: mult.commute)
  then have 1: "js_mul (Fin h) (Fin b) = Fin (h * b)" by (simp add: to_double_exact)
  have "\<bar>h * b + ?c\<bar> < 2 ^ 53" using hb c safe by (simp add: mult.commute)
  then have 2: "js_add (Fin (h * b)) (Fin ?c) = Fin (h * b + ?c)" by (simp add: to_double_exact)
  have "0 \<le> h * b + ?c" using hb c by simp
  from js_rem_nonneg [OF this q] 1 2 k show ?thesis
    by (simp add: hash_update_def charCodeAt_def)
qed

lemma fold_hash_update:
  assumes b: "0 < b" and q: "0 < q" and safe: "b * q + 65535 < 2 ^ 53" and k: "k \<le> length s"
  shows "fold (hash_update s (Fin b) (Fin q)) [0..<k] (Fin 0) = Fin (poly_hash b (take k s) mod q)"
  using k
proof (induction k)
  case 0
  then show ?case by (simp add: poly_hash_Nil)
next
  case (Suc k)
  then have k: "k < length s" by simp
  let ?h = "poly_hash b (take k s) mod q"
  have h: "0 \<le> ?h" "?h < q" using q by simp_all
  have "fold (hash_update s (Fin b) (Fin q)) [0..<Suc k] (Fin 0) =
        hash_update s (Fin b) (Fin q) k (Fin ?h)"
    using Suc by simp
  also have "\<dots> = Fin ((?h * b + uint (s ! k)) mod q)"
    by (rule hash_update_exact [OF b q safe h k])
  also have "(?h * b + uint (s ! k)) mod q = (poly_hash b (take k s) * b + uint (s ! k)) mod q"
    by (rule mod_add_cong) (simp_all add: mod_mult_left_eq)
  also have "poly_hash b (take k s) * b + uint (s ! k) = poly_hash b (take (Suc k) s)"
    using k by (simp add: take_Suc_conv_app_nth poly_hash_snoc)
  finally show ?case .
qed

lemma computeHash_exact:
  assumes "0 < b" "0 < q" "b * q + 65535 < 2 ^ 53"
  shows "computeHash s (Fin b) (Fin q) = Fin (poly_hash b s mod q)"
  using fold_hash_update [OF assms, of "length s" s] by (simp add: computeHash_def)

lemma fst_fold_hash_iter:
  "fst (fold (hash_iter p base modulus) xs st) = fold (hash_update p base modulus) xs (fst st)"
  by (induction xs arbitrary: st) (simp_all add: hash_iter_def hash_update_def Let_def)

lemma computePatternHash_fold:
  "fst (computePatternHashWithSteps p base modulus) = computeHash p base modulus"
  by (simp add: computePatternHashWithSteps_def Let_def fst_fold_hash_iter computeHash_def)

lemma computeH_exact:
  assumes b: "0 < b" and q: "0 < q" and safe: "b * q < 2 ^ 53"
  shows "\<exists>hh. fold (\<lambda>i h. js_rem (js_mul h (Fin b)) (Fin q)) [0..<k] (Fin 1) = Fin hh \<and>
              0 \<le> hh \<and> hh \<le> q \<and> hh mod q = b ^ k mod q"
proof (induction k)
  case 0
  show ?case using q by simp
next
  case (Suc k)
  then obtain hh where hh: "fold (\<lambda>i h. js_rem (js_mul h (Fin b)) (Fin q)) [0..<k] (Fin 1) = Fin hh"
    "0 \<le> hh" "hh \<le> q" "hh mod q = b ^ k mod q" by blast
  have "\<bar>hh * b\<bar> < 2 ^ 53" by (rule mul_bound [OF hh(2,3) b safe])
  then have 1: "js_mul (Fin hh) (Fin b) = Fin (hh * b)" by (simp add: to_double_exact)
  have "0 \<le> hh * b" using hh b by simp
  from js_rem_nonneg [OF this q] 1
  have 2: "js_rem (js_mul (Fin hh) (Fin b)) (Fin q) = Fin (hh * b mod q)" by simp
  have "hh * b mod q = (hh mod q) * b mod q" by (simp add: mod_simps)
  also have "\<dots> = (b ^ k mod q) * b mod q" by (simp add: hh(4))
  also have "\<dots> = b ^ Suc k mod q" by (simp add: mod_simps mult.commute)
  finally have 3: "hh * b mod q mod q = b ^ Suc k mod q" by simp
  have 4: "0 \<le> hh * b mod q" "hh * b mod q \<le> q" using q
    by (simp_all add: less_imp_le)
  from hh(1) 2 3 4 show ?case by simp
qed

lemma rolling_update_exact:
  assumes b: "0 < b" and q: "0 < q" and safe: "b * q < 2 ^ 37"
    and H: "0 \<le> H" "H < q" and hh: "0 \<le> hh" "hh \<le> q"
    and c: "0 \<le> c" "c \<le> 65535" and a: "0 \<le> a" "a \<le> 65535"
  shows "rolling_update (Fin b) (Fin q) (Fin hh) (Fin H) (Fin c) (Fin a) =
           Fin ((b * (H - c * hh) + a) mod q)"
proof -
  have bq: "1 \<le> b * q" using b q by (simp add: Suc_leI mult_pos_pos int_one_le_iff_zero_less)
  have lim: "65535 * (b * q) + 65535 < 2 ^ 53"
  proof -
    have "b * q \<le> 2 ^ 37 - 1" using safe by simp
    then have "65535 * (b * q) + 65535 \<le> 65535 * (2 ^ 37 - 1) + (65535::int)" by simp
    also have "\<dots> < 2 ^ 53" by simp
    finally show ?thesis .
  qed
  have ch: "0 \<le> c * hh" "c * hh \<le> 65535 * q"
    using c hh by (simp_all add: mult_mono)
  have qle: "q \<le> b * q" using b q by simp
  have "\<bar>c * hh\<bar> < 2 ^ 53" using ch lim qle by simp
  then have 1: "js_mul (Fin c) (Fin hh) = Fin (c * hh)" by (simp add: to_double_exact)
  let ?d = "H - c * hh"
  have d: "- (65535 * q) \<le> ?d" "?d \<le> 65535 * q" using ch H q by simp_all
  then have dabs: "\<bar>?d\<bar> \<le> 65535 * q" by simp
  have "\<bar>?d\<bar> < 2 ^ 53" using dabs lim qle by simp
  then have "to_double ?d = Fin ?d" by (rule to_double_exact)
  moreover have "js_sub (Fin H) (js_mul (Fin c) (Fin hh)) = to_double ?d"
    unfolding js_sub_def 1 by simp
  ultimately have 2: "js_sub (Fin H) (js_mul (Fin c) (Fin hh)) = Fin ?d" by simp
  have bd: "\<bar>b * ?d\<bar> \<le> 65535 * (b * q)"
  proof -
    have "\<bar>b * ?d\<bar> = b * \<bar>?d\<bar>" using b by (simp add: abs_mult)
    also have "\<dots> \<le> b * (65535 * q)" using dabs b by (simp add: mult_left_mono)
    finally show ?thesis by (simp add: mult_ac)
  qed
  then have "\<bar>b * ?d\<bar> < 2 ^ 53" using lim by simp
  then have 3: "js_mul (Fin b) (Fin ?d) = Fin (b * ?d)" by (simp add: to_double_exact)
  let ?x = "b * ?d + a"
  have "\<bar>?x\<bar> \<le> \<bar>b * ?d\<bar> + a" using a by simp
  with bd a lim have "\<bar>?x\<bar> < 2 ^ 53" by simp
  then have 4: "js_add (Fin (b * ?d)) (Fin a) = Fin ?x" by (simp add: to_double_exact)
  from js_rem_range [OF q, of ?x] obtain r where
    r: "js_rem (Fin ?x) (Fin q) = Fin r" "- q < r" "r < q" "(r + q) mod q = ?x mod q" by blast
  have "\<bar>r + q\<bar> < 2 ^ 53" using r(2,3) lim qle bq by linarith
  then have 5: "js_add (Fin r) (Fin q) = Fin (r + q)" by (simp add: to_double_exact)
  have "0 \<le> r + q" using r(2) by simp
  from js_rem_nonneg [OF this q] have 6: "js_rem (Fin (r + q)) (Fin q) = Fin ((r + q) mod q)" .
  show ?thesis
    unfolding rolling_update_def 2 3 4 r(1) 5 6 r(4) ..
qed

lemma rolling_math:
  assumes H: "H mod q = poly_hash b (c # w) mod q" and hh: "hh mod q = b ^ length w mod q"
  shows "(b * (H - uint c * hh) + uint a) mod q = poly_hash b (w @ [a]) mod q"
proof -
  have m: "(uint c * hh) mod q = (uint c * b ^ length w) mod q"
    by (rule mod_mult_cong) (simp_all add: hh)
  have "(H - uint c * hh) mod q = (poly_hash b (c # w) - uint c * b ^ length w) mod q"
    by (rule mod_diff_cong) (simp_all add: H m)
  also have "poly_hash b (c # w) - uint c * b ^ length w = poly_hash b w"
    by (simp add: poly_hash_Cons)
  finally have e: "(H - uint c * hh) mod q = poly_hash b w mod q" .
  have "(b * (H - uint c * hh)) mod q = (b * poly_hash b w) mod q"
    by (rule mod_mult_cong) (simp_all add: e)
  then have "(b * (H - uint c * hh) + uint a) mod q = (b * poly_hash b w + uint a) mod q"
    by (rule mod_add_cong) simp
  also have "b * poly_hash b w + uint a = poly_hash b (w @ [a])"
    by (simp add: poly_hash_snoc mult.commute)
  finally show ?thesis .
qed

lemma verify_fst:
  "fst (verify t p i j c vs) \<longleftrightarrow>
     (\<forall>j'. j \<le> j' \<and> j' < length p \<longrightarrow> char_at t (i + j') = char_at p j')"
proof (induction t p i j c vs rule: verify.induct)
  case (1 t p i j c vs)
  show ?case
  proof (cases "j < length p")
    case False
    then have "fst (verify t p i j c vs)" by (subst verify.simps) simp
    moreover have "\<forall>j'. j \<le> j' \<and> j' < length p \<longrightarrow> char_at t (i + j') = char_at p j'"
      using False by auto
    ultimately show ?thesis by blast
  next
    case True
    show ?thesis
    proof (cases "char_at t (i + j) = char_at p j")
      case ne: False
      with True have "\<not> fst (verify t p i j c vs)" by (subst verify.simps) (simp add: Let_def)
      moreover have "\<not> (\<forall>j'. j \<le> j' \<and> j' < length p \<longrightarrow> char_at t (i + j') = char_at p j')"
        using ne True by blast
      ultimately show ?thesis by blast
    next
      case eq: True
      let ?vs = "vs @ [(i + j, j, char_at t (i + j), char_at p j, True)]"
      have "fst (verify t p i j c vs) = fst (verify t p i (j + 1) (c + 1) ?vs)"
        using True eq by (subst verify.simps) (simp add: Let_def)
      also have "\<dots> \<longleftrightarrow> (\<forall>j'. j + 1 \<le> j' \<and> j' < length p \<longrightarrow> char_at t (i + j') = char_at p j')"
        using "1.IH" [OF True refl refl] eq by simp
      also have "\<dots> \<longleftrightarrow> (\<forall>j'. j \<le> j' \<and> j' < length p \<longrightarrow> char_at t (i + j') = char_at p j')"
      proof
        assume a: "\<forall>j'. j + 1 \<le> j' \<and> j' < length p \<longrightarrow> char_at t (i + j') = char_at p j'"
        show "\<forall>j'. j \<le> j' \<and> j' < length p \<longrightarrow> char_at t (i + j') = char_at p j'"
        proof (intro allI impI)
          fix j' assume b: "j \<le> j' \<and> j' < length p"
          show "char_at t (i + j') = char_at p j'"
          proof (cases "j' = j")
            case True with eq show ?thesis by simp
          next
            case False
            with b have "j + 1 \<le> j' \<and> j' < length p" by simp
            with a show ?thesis by blast
          qed
        qed
      next
        assume a: "\<forall>j'. j \<le> j' \<and> j' < length p \<longrightarrow> char_at t (i + j') = char_at p j'"
        show "\<forall>j'. j + 1 \<le> j' \<and> j' < length p \<longrightarrow> char_at t (i + j') = char_at p j'"
        proof (intro allI impI)
          fix j' assume "j + 1 \<le> j' \<and> j' < length p"
          then have "j \<le> j' \<and> j' < length p" by simp
          with a show "char_at t (i + j') = char_at p j'" by blast
        qed
      qed
      finally show ?thesis .
    qed
  qed
qed

lemma verify_window: "fst (verify t p i 0 c vs) \<longleftrightarrow> window_matches t p i"
  by (simp add: verify_fst window_matches_def)

lemma window_matches_take:
  assumes "i + length p \<le> length t"
  shows "window_matches t p i \<longleftrightarrow> take (length p) (drop i t) = p"
proof -
  have "window_matches t p i \<longleftrightarrow> (\<forall>j<length p. t ! (i + j) = p ! j)"
    unfolding window_matches_def char_at_def using assms by auto
  also have "\<dots> \<longleftrightarrow> take (length p) (drop i t) = p"
    using assms by (auto simp: list_eq_iff_nth_eq)
  finally show ?thesis .
qed

lemma rk_check_textHash: "rs_textHash (rk_check t p pH i s) = rs_textHash s"
  by (simp add: rk_check_def Let_def split: prod.splits)

lemma rk_check_matches:
  "rs_matches (rk_check t p pH i s) =
     rs_matches s @ (if js_eq pH (rs_textHash s) \<and> window_matches t p i then [int i] else [])"
proof -
  obtain mt cc vs where v: "verify t p i 0 (rs_charComparisons s) [] = (mt, cc, vs)"
    by (cases "verify t p i 0 (rs_charComparisons s) []") auto
  from verify_window [of t p i "rs_charComparisons s" "[]"] v
  have "mt \<longleftrightarrow> window_matches t p i" by simp
  with v show ?thesis by (simp add: rk_check_def Let_def)
qed

lemma rk_check_steps:
  "\<exists>new. rs_steps (rk_check t p pH i s) = rs_steps s @ new \<and> rolling_targets new = [] \<and>
     (js_eq pH (rs_textHash s) \<and> \<not> window_matches t p i \<longrightarrow>
        (\<exists>st\<in>set new. spurious_at st = Some i)) \<and>
     (\<forall>st\<in>set new. spurious_at st \<noteq> None \<longrightarrow>
        js_eq pH (rs_textHash s) \<and> \<not> window_matches t p i \<and> spurious_at st = Some i)"
proof -
  obtain mt cc vs where v: "verify t p i 0 (rs_charComparisons s) [] = (mt, cc, vs)"
    by (cases "verify t p i 0 (rs_charComparisons s) []") auto
  from verify_window [of t p i "rs_charComparisons s" "[]"] v
  have "mt \<longleftrightarrow> window_matches t p i" by simp
  with v show ?thesis
    by (simp add: rk_check_def Let_def rolling_targets_def map_filter_def)
qed

lemma rk_roll_matches: "rs_matches (rk_roll t p base modulus h i s) = rs_matches s"
  by (simp add: rk_roll_def Let_def)

lemma rk_roll_textHash:
  "rs_textHash (rk_roll t p base modulus h i s) =
     (if int i < int (length t) - int (length p)
      then rolling_update base modulus h (rs_textHash s) (charCodeAt t i) (charCodeAt t (i + length p))
      else rs_textHash s)"
  by (simp add: rk_roll_def Let_def)

lemma rk_roll_steps:
  "\<exists>new. rs_steps (rk_roll t p base modulus h i s) = rs_steps s @ new \<and>
     (\<forall>st\<in>set new. spurious_at st = None) \<and>
     rolling_targets new =
       (if int i < int (length t) - int (length p)
        then [(i + 1, rs_textHash (rk_roll t p base modulus h i s))] else [])"
  by (simp add: rk_roll_def Let_def rolling_targets_def map_filter_def)

lemma rk_loop_Suc:
  "rk_loop t p pH base modulus (Suc k) =
     rk_iter t p pH base modulus (computeH (length p) base modulus) k (rk_loop t p pH base modulus k)"
  by (simp add: rk_loop_def)

lemma rolling_targets_append:
  "rolling_targets (xs @ ys) = rolling_targets xs @ rolling_targets ys"
  by (simp add: rolling_targets_def map_filter_def)

lemma rk_loop_0: "rk_loop t p pH base modulus 0 = rk_init t p pH base modulus"
  by (simp add: rk_loop_def)

lemma rk_loop_matches:
  "rs_matches (rk_loop t p pH base modulus k) =
     map int (filter (\<lambda>i. js_eq pH (rs_textHash (rk_loop t p pH base modulus i)) \<and>
                          window_matches t p i) [0..<k])"
proof (induction k)
  case 0
  show ?case by (simp add: rk_loop_0 rk_init_def Let_def)
next
  case (Suc k)
  show ?case
    by (simp add: rk_loop_Suc rk_iter_def rk_roll_matches rk_check_matches Suc)
qed

lemma rk_loop_steps_Suc:
  "\<exists>new. rs_steps (rk_loop t p pH base modulus (Suc k)) =
            rs_steps (rk_loop t p pH base modulus k) @ new \<and>
     (js_eq pH (rs_textHash (rk_loop t p pH base modulus k)) \<and> \<not> window_matches t p k \<longrightarrow>
        (\<exists>st\<in>set new. spurious_at st = Some k)) \<and>
     rolling_targets new =
       (if int k < int (length t) - int (length p)
        then [(k + 1, rs_textHash (rk_loop t p pH base modulus (Suc k)))] else [])"
proof -
  let ?s = "rk_loop t p pH base modulus k" and ?h = "computeH (length p) base modulus"
  let ?c = "rk_check t p pH k ?s"
  from rk_check_steps [of t p pH k ?s] obtain n1 where
    n1: "rs_steps ?c = rs_steps ?s @ n1" "rolling_targets n1 = []"
      "js_eq pH (rs_textHash ?s) \<and> \<not> window_matches t p k \<longrightarrow> (\<exists>st\<in>set n1. spurious_at st = Some k)"
    by blast
  from rk_roll_steps [of t p base modulus ?h k ?c] obtain n2 where
    n2: "rs_steps (rk_roll t p base modulus ?h k ?c) = rs_steps ?c @ n2"
      "rolling_targets n2 =
         (if int k < int (length t) - int (length p)
          then [(k + 1, rs_textHash (rk_roll t p base modulus ?h k ?c))] else [])"
    by blast
  have e: "rk_loop t p pH base modulus (Suc k) = rk_roll t p base modulus ?h k ?c"
    by (simp add: rk_loop_Suc rk_iter_def)
  have 1: "rs_steps (rk_loop t p pH base modulus (Suc k)) = rs_steps ?s @ (n1 @ n2)"
    by (simp add: e n1(1) n2(1))
  have 2: "js_eq pH (rs_textHash ?s) \<and> \<not> window_matches t p k \<longrightarrow>
             (\<exists>st\<in>set (n1 @ n2). spurious_at st = Some k)"
    using n1(3) by auto
  have 3: "rolling_targets (n1 @ n2) =
       (if int k < int (length t) - int (length p)
        then [(k + 1, rs_textHash (rk_loop t p pH base modulus (Suc k)))] else [])"
    by (simp add: rolling_targets_append n1(2) n2(2) e)
  from 1 2 3 show ?thesis by blast
qed

lemma rk_loop_steps_mono:
  assumes "k \<le> k'"
  shows "set (rs_steps (rk_loop t p pH base modulus k)) \<subseteq>
         set (rs_steps (rk_loop t p pH base modulus k'))"
  using assms
proof (induction k')
  case 0
  then show ?case by simp
next
  case (Suc k')
  show ?case
  proof (cases "k = Suc k'")
    case True then show ?thesis by simp
  next
    case False
    with Suc have "set (rs_steps (rk_loop t p pH base modulus k)) \<subseteq>
                   set (rs_steps (rk_loop t p pH base modulus k'))" by simp
    moreover from rk_loop_steps_Suc [of t p pH base modulus k']
    have "set (rs_steps (rk_loop t p pH base modulus k')) \<subseteq>
          set (rs_steps (rk_loop t p pH base modulus (Suc k')))" by auto
    ultimately show ?thesis by blast
  qed
qed

lemma rk_loop_spurious:
  assumes "k < K" and "js_eq pH (rs_textHash (rk_loop t p pH base modulus k))"
    and "\<not> window_matches t p k"
  shows "\<exists>st\<in>set (rs_steps (rk_loop t p pH base modulus K)). spurious_at st = Some k"
proof -
  from rk_loop_steps_Suc [of t p pH base modulus k] obtain new where
    new: "rs_steps (rk_loop t p pH base modulus (Suc k)) =
            rs_steps (rk_loop t p pH base modulus k) @ new"
      "js_eq pH (rs_textHash (rk_loop t p pH base modulus k)) \<and> \<not> window_matches t p k \<longrightarrow>
        (\<exists>st\<in>set new. spurious_at st = Some k)"
    by blast
  from new(2) assms(2,3) obtain st where "st \<in> set new" "spurious_at st = Some k" by blast
  then have st: "st \<in> set (rs_steps (rk_loop t p pH base modulus (Suc k)))"
    "spurious_at st = Some k" by (simp_all add: new(1))
  from assms(1) have "Suc k \<le> K" by simp
  from rk_loop_steps_mono [OF this, of t p pH base modulus] st show ?thesis by blast
qed

lemma rk_loop_rolling_targets:
  "rolling_targets (rs_steps (rk_loop t p pH base modulus k)) =
     map (\<lambda>j. (j, rs_textHash (rk_loop t p pH base modulus j)))
       [1..<Suc (min k (nat (int (length t) - int (length p))))]"
proof (induction k)
  case 0
  show ?case by (simp add: rk_loop_0 rk_init_def Let_def rolling_targets_def map_filter_def)
next
  case (Suc k)
  let ?d = "nat (int (length t) - int (length p))"
  from rk_loop_steps_Suc [of t p pH base modulus k] obtain new where
    new: "rs_steps (rk_loop t p pH base modulus (Suc k)) = rs_steps (rk_loop t p pH base modulus k) @ new"
      "rolling_targets new =
       (if int k < int (length t) - int (length p)
        then [(k + 1, rs_textHash (rk_loop t p pH base modulus (Suc k)))] else [])"
    by blast
  show ?case
  proof (cases "int k < int (length t) - int (length p)")
    case True
    then have kd: "k < ?d" by simp
    then have m: "min (Suc k) ?d = Suc k" "min k ?d = k" by simp_all
    show ?thesis
      unfolding new(1) rolling_targets_append Suc new(2) m using True by simp
  next
    case False
    then have kd: "?d \<le> k" by simp
    then have m: "min (Suc k) ?d = ?d" "min k ?d = ?d" by simp_all
    show ?thesis
      unfolding new(1) rolling_targets_append Suc new(2) m using False by simp
  qed
qed

lemma window_shift:
  assumes "Suc k + m \<le> length t" "0 < m"
  shows "take m (drop k t) = t ! k # take (m - 1) (drop (Suc k) t)"
    and "take m (drop (Suc k) t) = take (m - 1) (drop (Suc k) t) @ [t ! (k + m)]"
proof -
  from assms obtain m' where m': "m = Suc m'" by (cases m) auto
  have k: "k < length t" using assms by simp
  have "drop k t = t ! k # drop (Suc k) t" using k by (simp add: Cons_nth_drop_Suc)
  then show "take m (drop k t) = t ! k # take (m - 1) (drop (Suc k) t)"
    by (simp add: m')
  have "m' < length (drop (Suc k) t)" using assms m' by simp
  from take_Suc_conv_app_nth [OF this]
  have "take (Suc m') (drop (Suc k) t) = take m' (drop (Suc k) t) @ [drop (Suc k) t ! m']" .
  moreover have "drop (Suc k) t ! m' = t ! (k + m)" using assms m' by (simp add: add.commute)
  ultimately show "take m (drop (Suc k) t) = take (m - 1) (drop (Suc k) t) @ [t ! (k + m)]"
    by (simp add: m')
qed

lemma rk_loop_textHash:
  assumes b: "0 < b" and q: "0 < q" and safe: "b * q < 2 ^ 37" and p: "p \<noteq> []"
    and k: "k + length p \<le> length t"
  shows "rs_textHash (rk_loop t p pH (Fin b) (Fin q) k) =
           Fin (poly_hash b (take (length p) (drop k t)) mod q)"
  using k
proof (induction k)
  case 0
  have s: "b * q + 65535 < 2 ^ 53" using safe by simp
  from fold_hash_update [OF b q s, of "length p" t] 0 show ?case
    by (simp add: rk_loop_0 rk_init_def Let_def)
next
  case (Suc k)
  let ?m = "length p"
  let ?s = "rk_loop t p pH (Fin b) (Fin q) k"
  let ?w = "take (?m - 1) (drop (Suc k) t)"
  have m: "0 < ?m" using p by simp
  have lt: "int k < int (length t) - int ?m" using Suc.prems by simp
  from Suc have H: "rs_textHash ?s = Fin (poly_hash b (take ?m (drop k t)) mod q)" by simp
  let ?H = "poly_hash b (take ?m (drop k t)) mod q"
  have s53: "b * q < 2 ^ 53"
  proof -
    have "(2::int) ^ 37 \<le> 2 ^ 53" by simp
    with safe show ?thesis by linarith
  qed
  from computeH_exact [OF b q s53, of "?m - 1"] obtain hh where
    hh: "computeH ?m (Fin b) (Fin q) = Fin hh" "0 \<le> hh" "hh \<le> q" "hh mod q = b ^ (?m - 1) mod q"
    by (auto simp: computeH_def)
  have kn: "k < length t" and kmn: "k + ?m < length t" using Suc.prems m by simp_all
  have cc: "charCodeAt t k = Fin (uint (t ! k))" "charCodeAt t (k + ?m) = Fin (uint (t ! (k + ?m)))"
    using kn kmn by (simp_all add: charCodeAt_def)
  have "rs_textHash (rk_loop t p pH (Fin b) (Fin q) (Suc k)) =
        rolling_update (Fin b) (Fin q) (Fin hh) (Fin ?H) (Fin (uint (t ! k))) (Fin (uint (t ! (k + ?m))))"
    using lt by (simp add: rk_loop_Suc rk_iter_def rk_roll_textHash rk_check_textHash H hh(1) cc)
  also have "\<dots> = Fin ((b * (?H - uint (t ! k) * hh) + uint (t ! (k + ?m))) mod q)"
    by (rule rolling_update_exact [OF b q safe _ _ hh(2,3)])
       (use q uint_code_bound [of "t ! k"] uint_code_bound [of "t ! (k + ?m)"] in simp_all)
  also have "(b * (?H - uint (t ! k) * hh) + uint (t ! (k + ?m))) mod q =
             poly_hash b (?w @ [t ! (k + ?m)]) mod q"
  proof (rule rolling_math)
    show "?H mod q = poly_hash b (t ! k # ?w) mod q"
      using window_shift(1) [OF Suc.prems m] by simp
    show "hh mod q = b ^ length ?w mod q"
      using hh(4) Suc.prems by simp
  qed
  also have "?w @ [t ! (k + ?m)] = take ?m (drop (Suc k) t)"
    using window_shift(2) [OF Suc.prems m] by simp
  finally show ?case .
qed

lemma safe_37_53:
  assumes "0 < b" "0 < q" "b * q < (2::int) ^ 37"
  shows "b * q + 65535 < 2 ^ 53"
  using assms by simp

lemma rk_iterations:
  assumes "length p \<le> length t"
  shows "nat (int (length t) - int (length p) + 1) = Suc (length t) - length p"
  using assms by simp

lemma rk_collision_filter:
  assumes b: "0 < b" and q: "0 < q" and safe: "b * q < 2 ^ 37" and p: "p \<noteq> []"
    and i: "i + length p \<le> length t"
  shows "js_eq (computeHash p (Fin b) (Fin q))
           (rs_textHash (rk_loop t p (computeHash p (Fin b) (Fin q)) (Fin b) (Fin q) i)) \<and>
         window_matches t p i \<longleftrightarrow> take (length p) (drop i t) = p"
proof -
  note s = safe_37_53 [OF b q safe]
  have th: "rs_textHash (rk_loop t p (computeHash p (Fin b) (Fin q)) (Fin b) (Fin q) i) =
            Fin (poly_hash b (take (length p) (drop i t)) mod q)"
    by (rule rk_loop_textHash [OF b q safe p i])
  have ph: "computeHash p (Fin b) (Fin q) = Fin (poly_hash b p mod q)"
    by (rule computeHash_exact [OF b q s])
  show ?thesis
  proof
    assume "js_eq (computeHash p (Fin b) (Fin q))
              (rs_textHash (rk_loop t p (computeHash p (Fin b) (Fin q)) (Fin b) (Fin q) i)) \<and>
            window_matches t p i"
    then show "take (length p) (drop i t) = p" using window_matches_take [OF i] by simp
  next
    assume e: "take (length p) (drop i t) = p"
    then have "window_matches t p i" using window_matches_take [OF i] by simp
    moreover from th e have th': "rs_textHash (rk_loop t p (computeHash p (Fin b) (Fin q)) (Fin b) (Fin q) i) =
            Fin (poly_hash b p mod q)" by simp
    have "js_eq (computeHash p (Fin b) (Fin q))
              (rs_textHash (rk_loop t p (computeHash p (Fin b) (Fin q)) (Fin b) (Fin q) i))"
      unfolding th' by (simp add: ph)
    ultimately show "js_eq (computeHash p (Fin b) (Fin q))
              (rs_textHash (rk_loop t p (computeHash p (Fin b) (Fin q)) (Fin b) (Fin q) i)) \<and>
            window_matches t p i" by simp
  qed
qed

lemma rk_matches_brute_force:
  assumes b: "0 < b" and q: "0 < q" and safe: "b * q < 2 ^ 37" and p: "p \<noteq> []"
    and le: "length p \<le> length t"
  shows "rk_matches (rabinKarpSearchWithSteps t p (computeHash p (Fin b) (Fin q)) (Fin b) (Fin q)) =
           bruteForce t p"
proof -
  let ?pH = "computeHash p (Fin b) (Fin q)"
  have "filter (\<lambda>i. js_eq ?pH (rs_textHash (rk_loop t p ?pH (Fin b) (Fin q) i)) \<and>
                    window_matches t p i) [0..<Suc (length t) - length p] =
        filter (\<lambda>i. take (length p) (drop i t) = p) [0..<Suc (length t) - length p]"
  proof (rule filter_cong [OF refl])
    fix i assume "i \<in> set [0..<Suc (length t) - length p]"
    then have "i + length p \<le> length t" using le by simp
    from rk_collision_filter [OF b q safe p this]
    show "(js_eq ?pH (rs_textHash (rk_loop t p ?pH (Fin b) (Fin q) i)) \<and> window_matches t p i) =
          (take (length p) (drop i t) = p)" .
  qed
  then show ?thesis
    by (simp add: rabinKarpSearchWithSteps_def Let_def rk_loop_matches rk_iterations [OF le]
        bruteForce_def)
qed

lemma rk_rolling_targets_final:
  assumes b: "0 < b" and q: "0 < q" and safe: "b * q < 2 ^ 37" and p: "p \<noteq> []"
    and le: "length p \<le> length t"
  shows "rolling_targets (rk_matchingSteps (rabinKarpSearchWithSteps t p pH (Fin b) (Fin q))) =
           map (\<lambda>k. (k, computeHash (take (length p) (drop k t)) (Fin b) (Fin q)))
             [1..<Suc (length t - length p)]"
proof -
  note s = safe_37_53 [OF b q safe]
  let ?K = "Suc (length t) - length p"
  have m: "min ?K (nat (int (length t) - int (length p))) = length t - length p"
    using le by simp
  have "map (\<lambda>j. (j, rs_textHash (rk_loop t p pH (Fin b) (Fin q) j))) [1..<Suc (length t - length p)] =
        map (\<lambda>k. (k, computeHash (take (length p) (drop k t)) (Fin b) (Fin q)))
          [1..<Suc (length t - length p)]"
  proof (rule map_cong [OF refl])
    fix j assume "j \<in> set [1..<Suc (length t - length p)]"
    then have "j < Suc (length t - length p)" by auto
    then have j: "j + length p \<le> length t" using le by linarith
    have "length (take (length p) (drop j t)) = length p" using j by simp
    then show "(j, rs_textHash (rk_loop t p pH (Fin b) (Fin q) j)) =
               (j, computeHash (take (length p) (drop j t)) (Fin b) (Fin q))"
      by (simp add: rk_loop_textHash [OF b q safe p j] computeHash_exact [OF b q s])
  qed
  then show ?thesis
    by (simp add: rabinKarpSearchWithSteps_def Let_def rk_iterations [OF le]
        rolling_targets_append rk_loop_rolling_targets m)
       (simp add: rolling_targets_def map_filter_def)
qed

lemma rk_spurious_general:
  assumes i: "i + length p \<le> length t"
    and eq: "js_eq pH (rs_textHash (rk_loop t p pH base modulus i))"
    and ne: "take (length p) (drop i t) \<noteq> p"
  shows "(\<exists>st\<in>set (rk_matchingSteps (rabinKarpSearchWithSteps t p pH base modulus)).
            spurious_at st = Some i) \<and>
         int i \<notin> set (rk_matches (rabinKarpSearchWithSteps t p pH base modulus))"
proof -
  from i have le: "length p \<le> length t" by simp
  let ?K = "Suc (length t) - length p"
  have iK: "i < ?K" using i by simp
  have nw: "\<not> window_matches t p i" using window_matches_take [OF i] ne by simp
  from rk_loop_spurious [OF iK eq nw] obtain st where
    "st \<in> set (rs_steps (rk_loop t p pH base modulus ?K))" "spurious_at st = Some i" by blast
  then have 1: "\<exists>st\<in>set (rk_matchingSteps (rabinKarpSearchWithSteps t p pH base modulus)).
            spurious_at st = Some i"
    by (auto simp: rabinKarpSearchWithSteps_def Let_def rk_iterations [OF le])
  have 2: "int i \<notin> set (rk_matches (rabinKarpSearchWithSteps t p pH base modulus))"
    using nw
    by (auto simp: rabinKarpSearchWithSteps_def Let_def rk_iterations [OF le] rk_loop_matches)
  from 1 2 show ?thesis by simp
qed

text \<open>
  Where the hash arithmetic is exact (a positive base and modulus of product below
  \<open>2^37\<close>, so that every number of it is an integer below \<open>2^53\<close>), the rolling-hash
  scanner, given the pattern hash of \<open>computePatternHashWithSteps\<close>, returns the matches
  of the exact-match scanner.
\<close>

lemma rabin_karp_agrees_with_kmp:
  assumes "text \<noteq> []" and "pattern \<noteq> []" and "length pattern \<le> length text"
    and "0 < b" and "0 < q" and "b * q < 2 ^ 37"
  shows "\<exists>lps steps r.
           computeLPSWithSteps pattern = Some (lps, steps) \<and>
           kmpSearchWithSteps text pattern lps = Some r \<and>
           rk_matches (rabinKarpSearchWithSteps text pattern
              (fst (computePatternHashWithSteps pattern (Fin b) (Fin q))) (Fin b) (Fin q)) = matches r"
proof -
  from computeLPS_nonempty [OF assms(2)] obtain lps steps where
    l: "computeLPSWithSteps pattern = Some (lps, steps)" "table_ok pattern lps" by blast
  from kmpSearch_correct [OF assms(2) l(2), of "text"] obtain r where
    r: "kmpSearchWithSteps text pattern lps = Some r" "matches r = bruteForce text pattern"
    by blast
  from rk_matches_brute_force [OF assms(4,5,6,2,3)] l(1) r show ?thesis
    by (simp add: computePatternHash_fold)
qed

text \<open>
  C2. The claim: for every text and pattern satisfying the preconditions and every
  positive base and modulus, the rolling-hash scanner returns the matches of the
  exact-match scanner. The code breaks it where the rolling update leaves the integers
  that a double represents. With base 256 and modulus 1000000007, on the text of the
  eight Hangul code units D558 C138 C694 C5EC B7EC BD84 BC18 AC11 and the pattern of its
  last seven, the update computes \<open>256 * (315606591 - 54616 * 974740338) + 44049 =
  -13628442289521903\<close>, which rounds to \<open>-13628442289521904\<close>: the window at offset 1,
  which is the pattern, gets the hash 805877197 against the pattern hash 805877198, and
  the scanner returns no match where the exact-match scanner and the brute-force scan
  return offset 1. With base 1 and modulus \<open>2^53\<close> on \<open>AC\<close> and \<open>C\<close> the sum \<open>67 + 2^53\<close>
  rounds to \<open>2^53 + 68\<close>, and the match at offset 1 is missed in the same way.
\<close>

theorem rabin_karp_misses_match_by_rounding:
  "rk_matches (rabinKarpSearchWithSteps
      [54616, 49464, 50836, 50668, 47084, 48516, 48152, 44049]
      [49464, 50836, 50668, 47084, 48516, 48152, 44049]
      (fst (computePatternHashWithSteps [49464, 50836, 50668, 47084, 48516, 48152, 44049]
              (Fin 256) (Fin 1000000007)))
      (Fin 256) (Fin 1000000007)) = [] \<and>
   map_option fst (computeLPSWithSteps [49464, 50836, 50668, 47084, 48516, 48152, 44049]) =
     Some [0, 0, 0, 0, 0, 0, 0] \<and>
   map_option matches (kmpSearchWithSteps
      [54616, 49464, 50836, 50668, 47084, 48516, 48152, 44049]
      [49464, 50836, 50668, 47084, 48516, 48152, 44049] [0, 0, 0, 0, 0, 0, 0]) = Some [1] \<and>
   bruteForce [54616, 49464, 50836, 50668, 47084, 48516, 48152, 44049]
      [49464, 50836, 50668, 47084, 48516, 48152, 44049] = [1] \<and>
   map_sum id rr_matches (rabinKarpAlgorithm
      [54616, 49464, 50836, 50668, 47084, 48516, 48152, 44049]
      [49464, 50836, 50668, 47084, 48516, 48152, 44049]
      (Some (Fin 256)) (Some (Fin 1000000007))) = Inr [] \<and>
   map_option (map_sum id kr_matches) (kmpAlgorithm
      [54616, 49464, 50836, 50668, 47084, 48516, 48152, 44049]
      [49464, 50836, 50668, 47084, 48516, 48152, 44049]) = Some (Inr [1]) \<and>
   rk_matches (rabinKarpSearchWithSteps (str ''AC'') (str ''C'')
      (fst (computePatternHashWithSteps (str ''C'') (Fin 1) (Fin (2 ^ 53)))) (Fin 1) (Fin (2 ^ 53))) = [] \<and>
   map_option fst (computeLPSWithSteps (str ''C'')) = Some [0] \<and>
   map_option matches (kmpSearchWithSteps (str ''AC'') (str ''C'') [0]) = Some [1]"
  by code_simp

text \<open>
  Where the hash arithmetic is exact (a positive base and modulus of product below
  \<open>2^37\<close>), the \<open>rolling_hash\<close> steps of the scan are, in order, those of the windows
  at offsets \<open>1 .. n - m\<close>, each with \<open>newHash\<close> equal to \<open>computeHash\<close> of that window,
  and that hash is an integer in \<open>[0, modulus)\<close>.
\<close>

lemma rolling_hash_equals_fresh_hash:
  assumes "pattern \<noteq> []" and "length pattern \<le> length text"
    and "0 < b" and "0 < q" and "b * q < 2 ^ 37"
  shows "rolling_targets (rk_matchingSteps
            (rabinKarpSearchWithSteps text pattern patternHash (Fin b) (Fin q))) =
           map (\<lambda>k. (k, computeHash (take (length pattern) (drop k text)) (Fin b) (Fin q)))
             [1..<Suc (length text - length pattern)] \<and>
         (\<forall>k. \<exists>v. computeHash (take (length pattern) (drop k text)) (Fin b) (Fin q) = Fin v \<and>
                 0 \<le> v \<and> v < q)"
proof -
  note s = safe_37_53 [OF assms(3,4,5)]
  have "\<exists>v. computeHash (take (length pattern) (drop k text)) (Fin b) (Fin q) = Fin v \<and>
             0 \<le> v \<and> v < q" for k
    using computeHash_exact [OF assms(3,4) s, of "take (length pattern) (drop k text)"] assms(4)
    by simp
  with rk_rolling_targets_final [OF assms(3,4,5,1,2), of patternHash] show ?thesis by blast
qed

text \<open>
  C4. The claim: for every window after the first, the hash produced by the rolling
  update equals the hash of that window computed from scratch by Horner's scheme with
  the same base and modulus. The code breaks it by the rounding of the update: in the
  run of C2 with base 256 and modulus 1000000007 the only \<open>rolling_hash\<close> step carries
  the new hash 805877197 for the window at offset 1, and \<open>computeHash\<close> of that window is
  805877198 (the exact value of \<open>256 * (315606591 - 54616 * 974740338) + 44049\<close> is odd and
  above \<open>2^53\<close> in magnitude, and its double is the even neighbour); with base 1 and
  modulus \<open>2^53\<close> on \<open>AC\<close> the step carries 68 and \<open>computeHash\<close> gives 67.
\<close>

theorem rolling_hash_differs_by_rounding:
  "rolling_targets (rk_matchingSteps (rabinKarpSearchWithSteps
      [54616, 49464, 50836, 50668, 47084, 48516, 48152, 44049]
      [49464, 50836, 50668, 47084, 48516, 48152, 44049]
      (Fin 805877198) (Fin 256) (Fin 1000000007))) = [(1, Fin 805877197)] \<and>
   computeHash (take 7 (drop 1 [54616, 49464, 50836, 50668, 47084, 48516, 48152, 44049]))
      (Fin 256) (Fin 1000000007) = Fin 805877198 \<and>
   to_double (256 * (315606591 - 54616 * 974740338) + 44049) = Fin (- 13628442289521904) \<and>
   256 * (315606591 - 54616 * 974740338) + 44049 = (- 13628442289521903 :: int) \<and>
   rolling_targets (rk_matchingSteps
      (rabinKarpSearchWithSteps (str ''AC'') (str ''C'') (Fin 67) (Fin 1) (Fin (2 ^ 53)))) =
     [(1, Fin 68)] \<and>
   computeHash (take 1 (drop 1 (str ''AC''))) (Fin 1) (Fin (2 ^ 53)) = Fin 67"
  by code_simp

text \<open>
  C5. At every window offset \<open>i\<close> where the window hash of the scanner (its \<open>textHash\<close>
  on reaching \<open>i\<close>) equals the pattern hash while the window is not the pattern, the
  scanner emits a \<open>spurious_hit\<close> step with \<open>windowStart = i\<close>, and \<open>i\<close> is not among the
  matches; this for every base, modulus and pattern hash. For a positive base and modulus
  of product below \<open>2^37\<close> the same holds with the window hash computed from scratch.
\<close>

theorem hash_collision_is_spurious_hit:
  assumes "i + length pattern \<le> length text"
    and "take (length pattern) (drop i text) \<noteq> pattern"
  shows "(js_eq patternHash (rs_textHash (rk_loop text pattern patternHash base modulus i)) \<longrightarrow>
            (\<exists>st\<in>set (rk_matchingSteps
                 (rabinKarpSearchWithSteps text pattern patternHash base modulus)).
               spurious_at st = Some i) \<and>
            int i \<notin> set (rk_matches (rabinKarpSearchWithSteps text pattern patternHash base modulus))) \<and>
         (pattern \<noteq> [] \<and> 0 < b \<and> 0 < q \<and> b * q < 2 ^ 37 \<and>
          js_eq patternHash (computeHash (take (length pattern) (drop i text)) (Fin b) (Fin q)) \<longrightarrow>
            (\<exists>st\<in>set (rk_matchingSteps
                 (rabinKarpSearchWithSteps text pattern patternHash (Fin b) (Fin q))).
               spurious_at st = Some i) \<and>
            int i \<notin> set (rk_matches (rabinKarpSearchWithSteps text pattern patternHash (Fin b) (Fin q))))"
proof (rule conjI; rule impI)
  assume "js_eq patternHash (rs_textHash (rk_loop text pattern patternHash base modulus i))"
  from rk_spurious_general [OF assms(1) this assms(2)]
  show "(\<exists>st\<in>set (rk_matchingSteps
                 (rabinKarpSearchWithSteps text pattern patternHash base modulus)).
               spurious_at st = Some i) \<and>
            int i \<notin> set (rk_matches (rabinKarpSearchWithSteps text pattern patternHash base modulus))" .
next
  assume h: "pattern \<noteq> [] \<and> 0 < b \<and> 0 < q \<and> b * q < 2 ^ 37 \<and>
          js_eq patternHash (computeHash (take (length pattern) (drop i text)) (Fin b) (Fin q))"
  then have p: "pattern \<noteq> []" and b: "0 < b" and q: "0 < q" and safe: "b * q < 2 ^ 37"
    and e: "js_eq patternHash (computeHash (take (length pattern) (drop i text)) (Fin b) (Fin q))"
    by simp_all
  have "length (take (length pattern) (drop i text)) = length pattern" using assms(1) by simp
  then have "rs_textHash (rk_loop text pattern patternHash (Fin b) (Fin q) i) =
        computeHash (take (length pattern) (drop i text)) (Fin b) (Fin q)"
    by (simp add: rk_loop_textHash [OF b q safe p assms(1)]
        computeHash_exact [OF b q safe_37_53 [OF b q safe]])
  with e have "js_eq patternHash (rs_textHash (rk_loop text pattern patternHash (Fin b) (Fin q) i))"
    by simp
  from rk_spurious_general [OF assms(1) this assms(2)]
  show "(\<exists>st\<in>set (rk_matchingSteps
                 (rabinKarpSearchWithSteps text pattern patternHash (Fin b) (Fin q))).
               spurious_at st = Some i) \<and>
            int i \<notin> set (rk_matches (rabinKarpSearchWithSteps text pattern patternHash (Fin b) (Fin q)))" .
qed

theorem hash_collision_is_spurious_hit_witness:
  "0 + length (str ''AB'') \<le> length (str ''FcAB'') \<and>
   take (length (str ''AB'')) (drop 0 (str ''FcAB'')) \<noteq> str ''AB'' \<and>
   js_eq (Fin 41) (rs_textHash (rk_loop (str ''FcAB'') (str ''AB'') (Fin 41) (Fin 256) (Fin 101) 0)) \<and>
   str ''AB'' \<noteq> [] \<and> (0::int) < 256 \<and> (0::int) < 101 \<and> (256::int) * 101 < 2 ^ 37 \<and>
   js_eq (Fin 41) (computeHash (take (length (str ''AB'')) (drop 0 (str ''FcAB''))) (Fin 256) (Fin 101)) \<and>
   (\<exists>st\<in>set (rk_matchingSteps
        (rabinKarpSearchWithSteps (str ''FcAB'') (str ''AB'') (Fin 41) (Fin 256) (Fin 101))).
      spurious_at st = Some 0) \<and>
   int 0 \<notin> set (rk_matches (rabinKarpSearchWithSteps (str ''FcAB'') (str ''AB'') (Fin 41) (Fin 256) (Fin 101))) \<and>
   fst (computePatternHashWithSteps (str ''AB'') (Fin 256) (Fin 101)) = Fin 41"
proof -
  have a: "0 + length (str ''AB'') \<le> length (str ''FcAB'')" by (simp add: str_def)
  have b: "take (length (str ''AB'')) (drop 0 (str ''FcAB'')) \<noteq> str ''AB''" by (simp add: str_def)
  have c: "js_eq (Fin 41) (rs_textHash (rk_loop (str ''FcAB'') (str ''AB'') (Fin 41) (Fin 256) (Fin 101) 0))"
    by code_simp
  have d: "str ''AB'' \<noteq> []" by (simp add: str_def)
  have e: "(0::int) < 256" "(0::int) < 101" "(256::int) * 101 < 2 ^ 37" by simp_all
  have f: "js_eq (Fin 41) (computeHash (take (length (str ''AB'')) (drop 0 (str ''FcAB''))) (Fin 256) (Fin 101))"
    by code_simp
  have g: "fst (computePatternHashWithSteps (str ''AB'') (Fin 256) (Fin 101)) = Fin 41"
    by code_simp
  from hash_collision_is_spurious_hit [OF a b, of "Fin 41" "Fin 256" "Fin 101" 256 101] c
  have "(\<exists>st\<in>set (rk_matchingSteps
        (rabinKarpSearchWithSteps (str ''FcAB'') (str ''AB'') (Fin 41) (Fin 256) (Fin 101))).
      spurious_at st = Some 0) \<and>
   int 0 \<notin> set (rk_matches (rabinKarpSearchWithSteps (str ''FcAB'') (str ''AB'') (Fin 41) (Fin 256) (Fin 101)))"
    by blast
  with a b c d e f g show ?thesis by blast
qed

text \<open>
  C7, as the code has it. Neither \<open>computePatternHashWithSteps\<close> nor
  \<open>rabinKarpAlgorithm\<close> checks the base or the modulus: with base \<open>-2\<close> and modulus \<open>-7\<close>
  the algorithm returns a result (pattern hash \<open>65 % -7 = 2\<close>, match at 0), and with
  modulus \<open>0\<close> a result whose pattern hash is \<open>NaN\<close> and that has no match. With base
  and modulus \<open>2^53\<close> the hash of \<open>AA\<close> is \<open>128\<close> (\<open>65 * 2^53 + 65\<close> rounds to
  \<open>65 * 2^53 + 128\<close>) where the polynomial gives \<open>65\<close>.
\<close>

theorem pattern_hash_without_parameter_check:
  "map_sum id (\<lambda>r. (rr_patternHash r, rr_matches r))
     (rabinKarpAlgorithm (str ''A'') (str ''A'') (Some (Fin (- 2))) (Some (Fin (- 7)))) =
     Inr (Fin 2, [0]) \<and>
   map_sum id (\<lambda>r. (rr_patternHash r, rr_matches r))
     (rabinKarpAlgorithm (str ''A'') (str ''A'') (Some (Fin 256)) (Some (Fin 0))) =
     Inr (NaN, []) \<and>
   fst (computePatternHashWithSteps (str ''AA'') (Fin (2 ^ 53)) (Fin (2 ^ 53))) = Fin 128 \<and>
   poly_hash (2 ^ 53) (str ''AA'') mod 2 ^ 53 = 65"
proof -
  have "poly_hash (2 ^ 53) (str ''AA'') = 65 * 2 ^ 53 + 65"
    using poly_hash_snoc [of "2 ^ 53" "[65]" 65] poly_hash_snoc [of "2 ^ 53" "[]" 65]
    by (simp add: str_def poly_hash_Nil)
  then have 1: "poly_hash (2 ^ 53) (str ''AA'') mod 2 ^ 53 = 65" by simp
  have 2: "map_sum id (\<lambda>r. (rr_patternHash r, rr_matches r))
     (rabinKarpAlgorithm (str ''A'') (str ''A'') (Some (Fin (- 2))) (Some (Fin (- 7)))) =
     Inr (Fin 2, [0])" by code_simp
  have 3: "map_sum id (\<lambda>r. (rr_patternHash r, rr_matches r))
     (rabinKarpAlgorithm (str ''A'') (str ''A'') (Some (Fin 256)) (Some (Fin 0))) =
     Inr (NaN, [])" by code_simp
  have 4: "fst (computePatternHashWithSteps (str ''AA'') (Fin (2 ^ 53)) (Fin (2 ^ 53))) = Fin 128"
    by code_simp
  from 1 2 3 4 show ?thesis by simp
qed

text \<open>
  C7 amended. \<open>rabinKarpAlgorithm\<close> does not check the base or the modulus: it fails on
  an empty text or pattern and on a pattern longer than the text, and in every other case
  returns a result that carries the base and the modulus it was given (the defaults 256
  and 101 for an argument left out) and the pattern hash that \<open>computePatternHashWithSteps\<close>,
  which has no failure, computes with them. The check is in the route: it passes on a
  base or modulus that is a positive integer, and the default in every other case. When
  base and modulus are positive and \<open>base * modulus + 65535 < 2^53\<close>, the hash is
  \<open>(\<Sum>k<m. code(pattern[k]) * base^(m-1-k)) mod modulus\<close>.
\<close>

theorem pattern_hash_is_polynomial:
  "(text \<noteq> [] \<and> pattern \<noteq> [] \<and> length pattern \<le> length text \<longrightarrow>
      (\<exists>res. rabinKarpAlgorithm text pattern base_arg mod_arg = Inr res \<and>
          rr_base res = (case base_arg of None \<Rightarrow> DEFAULT_BASE | Some x \<Rightarrow> x) \<and>
          rr_modulo res = (case mod_arg of None \<Rightarrow> DEFAULT_MODULO | Some y \<Rightarrow> y) \<and>
          rr_patternHash res =
            fst (computePatternHashWithSteps pattern (rr_base res) (rr_modulo res)))) \<and>
   (text = [] \<or> pattern = [] \<longrightarrow>
      rabinKarpAlgorithm text pattern base_arg mod_arg =
        Inl (Error ''Both text and pattern are required'')) \<and>
   (text \<noteq> [] \<and> pattern \<noteq> [] \<and> length text < length pattern \<longrightarrow>
      rabinKarpAlgorithm text pattern base_arg mod_arg =
        Inl (Error ''Pattern length cannot exceed text length'')) \<and>
   (0 < x \<longrightarrow> route_param (Some (Fin x)) d = Fin x) \<and>
   (\<not> (\<exists>y. v = Some (Fin y) \<and> 0 < y) \<longrightarrow> route_param v d = Fin d) \<and>
   (0 < b \<and> 0 < q \<and> b * q + 65535 < 2 ^ 53 \<longrightarrow>
      fst (computePatternHashWithSteps pattern (Fin b) (Fin q)) =
        Fin ((\<Sum>k<length pattern. uint (pattern ! k) * b ^ (length pattern - 1 - k)) mod q))"
proof -
  have 1: "text \<noteq> [] \<and> pattern \<noteq> [] \<and> length pattern \<le> length text \<longrightarrow>
      (\<exists>res. rabinKarpAlgorithm text pattern base_arg mod_arg = Inr res \<and>
          rr_base res = (case base_arg of None \<Rightarrow> DEFAULT_BASE | Some x \<Rightarrow> x) \<and>
          rr_modulo res = (case mod_arg of None \<Rightarrow> DEFAULT_MODULO | Some y \<Rightarrow> y) \<and>
          rr_patternHash res =
            fst (computePatternHashWithSteps pattern (rr_base res) (rr_modulo res)))"
    by (simp add: rabinKarpAlgorithm_def Let_def split: prod.splits)
  have 2: "text = [] \<or> pattern = [] \<longrightarrow>
      rabinKarpAlgorithm text pattern base_arg mod_arg =
        Inl (Error ''Both text and pattern are required'')"
    by (simp add: rabinKarpAlgorithm_def Let_def)
  have 3: "text \<noteq> [] \<and> pattern \<noteq> [] \<and> length text < length pattern \<longrightarrow>
      rabinKarpAlgorithm text pattern base_arg mod_arg =
        Inl (Error ''Pattern length cannot exceed text length'')"
    by (simp add: rabinKarpAlgorithm_def Let_def)
  have 4: "0 < x \<longrightarrow> route_param (Some (Fin x)) d = Fin x"
    by (simp add: route_param_def)
  have 5: "\<not> (\<exists>y. v = Some (Fin y) \<and> 0 < y) \<longrightarrow> route_param v d = Fin d"
    by (auto simp: route_param_def split: option.splits number.splits)
  have 6: "0 < b \<and> 0 < q \<and> b * q + 65535 < 2 ^ 53 \<longrightarrow>
      fst (computePatternHashWithSteps pattern (Fin b) (Fin q)) =
        Fin ((\<Sum>k<length pattern. uint (pattern ! k) * b ^ (length pattern - 1 - k)) mod q)"
    using computeHash_exact [of b q pattern]
    by (simp add: computePatternHash_fold poly_hash_def)
  from 1 2 3 4 5 6 show ?thesis by blast
qed

theorem pattern_hash_is_polynomial_witness:
  "str ''GEEKSFORGEEKS'' \<noteq> [] \<and> str ''GEEK'' \<noteq> [] \<and>
   length (str ''GEEK'') \<le> length (str ''GEEKSFORGEEKS'') \<and>
   (0::int) < 7 \<and> \<not> (\<exists>y. Some (Fin 0) = Some (Fin y) \<and> 0 < y) \<and>
   (0::int) < 256 \<and> (0::int) < 101 \<and> (256::int) * 101 + 65535 < 2 ^ 53 \<and>
   (\<exists>res. rabinKarpAlgorithm (str ''GEEKSFORGEEKS'') (str ''GEEK'') (Some (Fin (- 2))) None = Inr res \<and>
       rr_base res = Fin (- 2) \<and> rr_modulo res = Fin 101 \<and>
       rr_patternHash res =
         fst (computePatternHashWithSteps (str ''GEEK'') (rr_base res) (rr_modulo res))) \<and>
   rabinKarpAlgorithm (str ''GEEKSFORGEEKS'') [] (Some (Fin (- 2))) None =
     Inl (Error ''Both text and pattern are required'') \<and>
   (str ''GEEK'' \<noteq> [] \<and> str ''GEEKSFORGEEKS'' \<noteq> [] \<and>
    length (str ''GEEK'') < length (str ''GEEKSFORGEEKS'')) \<and>
   rabinKarpAlgorithm (str ''GEEK'') (str ''GEEKSFORGEEKS'') (Some (Fin (- 2))) None =
     Inl (Error ''Pattern length cannot exceed text length'') \<and>
   route_param (Some (Fin 7)) 256 = Fin 7 \<and> route_param (Some (Fin 0)) 256 = Fin 256 \<and>
   fst (computePatternHashWithSteps (str ''GEEK'') (Fin 256) (Fin 101)) =
     Fin ((\<Sum>k<length (str ''GEEK''). uint (str ''GEEK'' ! k) * 256 ^ (length (str ''GEEK'') - 1 - k))
          mod 101)"
proof -
  have a: "str ''GEEKSFORGEEKS'' \<noteq> []" "str ''GEEK'' \<noteq> []"
    "length (str ''GEEK'') \<le> length (str ''GEEKSFORGEEKS'')"
    "length (str ''GEEK'') < length (str ''GEEKSFORGEEKS'')"
    by (simp_all add: str_def)
  have b: "(0::int) < 256" "(0::int) < 101" "(256::int) * 101 + 65535 < 2 ^ 53" "(0::int) < 7"
    by simp_all
  have c: "\<not> (\<exists>y. Some (Fin 0) = Some (Fin y) \<and> 0 < y)" by simp
  note t = pattern_hash_is_polynomial [of "str ''GEEKSFORGEEKS''" "str ''GEEK''" "Some (Fin (- 2))" None
      7 256 "Some (Fin 0)" 256 101]
  note u = pattern_hash_is_polynomial [of "str ''GEEKSFORGEEKS''" "[]" "Some (Fin (- 2))" None
      7 256 "Some (Fin 0)" 256 101]
  note w = pattern_hash_is_polynomial [of "str ''GEEK''" "str ''GEEKSFORGEEKS''" "Some (Fin (- 2))" None
      7 256 "Some (Fin 0)" 256 101]
  from t a have 1: "\<exists>res. rabinKarpAlgorithm (str ''GEEKSFORGEEKS'') (str ''GEEK'') (Some (Fin (- 2))) None = Inr res \<and>
       rr_base res = Fin (- 2) \<and> rr_modulo res = Fin 101 \<and>
       rr_patternHash res =
         fst (computePatternHashWithSteps (str ''GEEK'') (rr_base res) (rr_modulo res))"
    by (simp add: DEFAULT_MODULO_def)
  from u have 2: "rabinKarpAlgorithm (str ''GEEKSFORGEEKS'') [] (Some (Fin (- 2))) None =
     Inl (Error ''Both text and pattern are required'')" by blast
  from w a have 3: "rabinKarpAlgorithm (str ''GEEK'') (str ''GEEKSFORGEEKS'') (Some (Fin (- 2))) None =
     Inl (Error ''Pattern length cannot exceed text length'')" by blast
  from t b have 4: "route_param (Some (Fin 7)) 256 = Fin 7" by blast
  from t c have 5: "route_param (Some (Fin 0)) 256 = Fin 256" by blast
  from t b have 6: "fst (computePatternHashWithSteps (str ''GEEK'') (Fin 256) (Fin 101)) =
     Fin ((\<Sum>k<length (str ''GEEK''). uint (str ''GEEK'' ! k) * 256 ^ (length (str ''GEEK'') - 1 - k))
          mod 101)"
    by blast
  from a b c 1 2 3 4 5 6 show ?thesis by blast
qed

end
